theory Spec2Isabelle
  imports Complex_Main
begin

section \<open>The in-place minimum-redundancy length calculator of inplace.c\<close>

text \<open>
  The array \<open>A\<close> of \<open>long long\<close> cells is an \<open>int list\<close>; the count \<open>n\<close> is a
  natural number (a negative \<open>n\<close> never reaches the calculator). Sums of frequencies are
  the only arithmetic whose size depends on the input values, so they are reduced to the
  two's-complement range of a 64-bit cell by \<open>wrap64\<close>. Cursors, pointers, depths and
  counters are bounded by \<open>2 * n\<close> and are left as they are.
\<close>

definition wrap64 :: "int \<Rightarrow> int" where
  "wrap64 x = (x + 2 ^ 63) mod 2 ^ 64 - 2 ^ 63"

subsection \<open>First pass, left to right, setting parent pointers\<close>

text \<open>
  The two conditions of the loop body. The disjunction is evaluated left to right in C,
  so \<open>A[leaf]\<close> is read only when \<open>leaf < n\<close>.
\<close>

definition take_root_first :: "nat \<Rightarrow> int list \<Rightarrow> nat \<Rightarrow> nat \<Rightarrow> bool" where
  "take_root_first n A rt leaf \<longleftrightarrow> leaf \<ge> n \<or> A ! rt < A ! leaf"

definition take_root_second :: "nat \<Rightarrow> int list \<Rightarrow> nat \<Rightarrow> nat \<Rightarrow> nat \<Rightarrow> bool" where
  "take_root_second n A rt leaf next \<longleftrightarrow> leaf \<ge> n \<or> (rt < next \<and> A ! rt < A ! leaf)"

text \<open>Select the first item for a pairing. The state is \<open>(A, root, leaf)\<close>.\<close>

fun select_first :: "nat \<Rightarrow> nat \<Rightarrow> int list \<times> nat \<times> nat \<Rightarrow> int list \<times> nat \<times> nat" where
  "select_first n next (A, rt, leaf) =
     (if take_root_first n A rt leaf
      then ((A[next := A ! rt])[rt := int next], rt + 1, leaf)
      else (A[next := A ! leaf], rt, leaf + 1))"

text \<open>Add on the second item.\<close>

fun select_second :: "nat \<Rightarrow> nat \<Rightarrow> int list \<times> nat \<times> nat \<Rightarrow> int list \<times> nat \<times> nat" where
  "select_second n next (A, rt, leaf) =
     (if take_root_second n A rt leaf next
      then ((A[next := wrap64 (A ! next + A ! rt)])[rt := int next], rt + 1, leaf)
      else (A[next := wrap64 (A ! next + A ! leaf)], rt, leaf + 1))"

definition pass1_body :: "nat \<Rightarrow> int list \<times> nat \<times> nat \<Rightarrow> nat \<Rightarrow> int list \<times> nat \<times> nat" where
  "pass1_body n st next = select_second n next (select_first n next st)"

text \<open>\<open>A[0] += A[1]; root = 0; leaf = 2;\<close>\<close>

definition pass1_init :: "int list \<Rightarrow> int list \<times> nat \<times> nat" where
  "pass1_init A = (A[0 := wrap64 (A ! 0 + A ! 1)], 0, 2)"

text \<open>
  The state on entry to the iteration \<open>next = k\<close> of \<open>for (next=1; next < n-1; next++)\<close>;
  the loop has run to its end when \<open>k = n - 1\<close>.
\<close>

definition pass1_upto :: "int list \<Rightarrow> nat \<Rightarrow> nat \<Rightarrow> int list \<times> nat \<times> nat" where
  "pass1_upto A n k = foldl (pass1_body n) (pass1_init A) [1..<k]"

definition pass1 :: "int list \<Rightarrow> nat \<Rightarrow> int list \<times> nat \<times> nat" where
  "pass1 A n = pass1_upto A n (n - 1)"

subsection \<open>Second pass, right to left, setting internal depths\<close>

definition pass2_body :: "int list \<Rightarrow> nat \<Rightarrow> int list" where
  "pass2_body A next = A[next := A ! nat (A ! next) + 1]"

text \<open>
  The array after \<open>A[n-2] = 0\<close> and the iterations \<open>next = n-3, ..., k\<close> of
  \<open>for (next=n-3; next>=0; next--)\<close>; the loop has run to its end when \<open>k = 0\<close>.
\<close>

definition pass2_from :: "int list \<Rightarrow> nat \<Rightarrow> nat \<Rightarrow> int list" where
  "pass2_from A n k = foldl pass2_body (A[n - 2 := 0]) (rev [k..<n - 2])"

definition pass2 :: "int list \<Rightarrow> nat \<Rightarrow> int list" where
  "pass2 A n = pass2_from A n 0"

subsection \<open>Third pass, right to left, setting leaf depths\<close>

text \<open>
  The cursors \<open>root\<close> and \<open>next\<close> run down to \<open>-1\<close>, so they are integers here. Every
  while loop carries a counter \<open>t\<close> of the loop bodies executed so far; the counter is
  not part of the C state and no result depends on it.

  \<open>while (root>=0 && A[root]==dpth) { used++; root--; }\<close>
\<close>

function scan_roots :: "int list \<Rightarrow> int \<Rightarrow> int \<times> int \<times> nat \<Rightarrow> int \<times> int \<times> nat" where
  "scan_roots A dpth (used, rt, t) =
     (if rt \<ge> 0 \<and> A ! nat rt = dpth
      then scan_roots A dpth (used + 1, rt - 1, t + 1)
      else (used, rt, t))"
  by pat_completeness auto
termination
  by (relation "measure (\<lambda>(A, dpth, used, rt, t). nat (rt + 1))") auto

declare scan_roots.simps [simp del]

text \<open>A store through a signed index; a negative index leaves the list as it is.\<close>

definition store :: "int list \<Rightarrow> int \<Rightarrow> int \<Rightarrow> int list" where
  "store A i v = (if 0 \<le> i then A[nat i := v] else A)"

text \<open>\<open>while (avbl>used) { A[next--] = dpth; avbl--; }\<close>\<close>

function fill_leaves :: "int \<Rightarrow> int \<Rightarrow> int list \<times> int \<times> int \<times> nat \<Rightarrow> int list \<times> int \<times> int \<times> nat" where
  "fill_leaves dpth used (A, next, avbl, t) =
     (if avbl > used
      then fill_leaves dpth used (store A next dpth, next - 1, avbl - 1, t + 1)
      else (A, next, avbl, t))"
  by pat_completeness auto
termination
  by (relation "measure (\<lambda>(dpth, used, A, next, avbl, t). nat (avbl - used))") auto

declare fill_leaves.simps [simp del]

lemma scan_roots_le:
  "scan_roots A dpth (used, rt, t) = (used', rt', t') \<Longrightarrow>
     rt' \<le> rt \<and> used' = used + (rt - rt') \<and> (rt' < rt \<longrightarrow> 0 \<le> rt)"
proof (induction A dpth "(used, rt, t)" arbitrary: used rt t rule: scan_roots.induct)
  case (1 A dpth used rt t)
  show ?case
  proof (cases "rt \<ge> 0 \<and> A ! nat rt = dpth")
    case True
    with 1(2) have "scan_roots A dpth (used + 1, rt - 1, t + 1) = (used', rt', t')"
      by (simp add: scan_roots.simps [of A dpth used rt t])
    from 1(1) [OF True this] True show ?thesis by auto
  next
    case False
    with 1(2) show ?thesis by (simp add: scan_roots.simps [of A dpth used rt t])
  qed
qed

text \<open>
  \<open>while (avbl>0) { ...; avbl = 2*used; dpth++; used = 0; }\<close>. An iteration either
  moves \<open>root\<close> down or leaves \<open>avbl = 0\<close>, which is the termination argument.
\<close>

function pass3_loop :: "int list \<times> int \<times> int \<times> int \<times> int \<times> nat \<Rightarrow> int list \<times> nat" where
  "pass3_loop (A, rt, next, avbl, dpth, t) =
     (if avbl > 0 then
        (case scan_roots A dpth (0, rt, t) of (used, rt', t1) \<Rightarrow>
         case fill_leaves dpth used (A, next, avbl, t1) of (A', next', avbl', t2) \<Rightarrow>
           pass3_loop (A', rt', next', 2 * used, dpth + 1, t2 + 1))
      else (A, t))"
  by pat_completeness auto
termination
  apply (relation "measure (\<lambda>(A, rt, next, avbl, dpth, t). 2 * nat (rt + 1) + (if avbl > 0 then 1 else 0))")
   apply simp
  apply (clarsimp dest!: scan_roots_le [OF sym])
  done

declare pass3_loop.simps [simp del]

text \<open>\<open>avbl = 1; used = dpth = 0; root = n-2; next = n-1;\<close>\<close>

definition pass3 :: "int list \<Rightarrow> nat \<Rightarrow> int list \<times> nat" where
  "pass3 A n = pass3_loop (A, int n - 2, int n - 1, 1, 0, 0)"

subsection \<open>The calculator\<close>

definition calculate_minimum_redundancy :: "int list \<Rightarrow> nat \<Rightarrow> int list" where
  "calculate_minimum_redundancy A n =
     (if n = 0 then A
      else if n = 1 then A[0 := 0]
      else fst (pass3 (pass2 (fst (pass1 A n)) n) n))"

text \<open>The contract of the specification: the whole sequence is the array.\<close>

definition compute_lengths :: "int list \<Rightarrow> int list" where
  "compute_lengths fs = calculate_minimum_redundancy fs (length fs)"

text \<open>
  The number of loop bodies the calculator executes: \<open>n - 2\<close> in each of the two for
  loops, and the counter of the third pass.
\<close>

definition loop_iterations :: "int list \<Rightarrow> nat \<Rightarrow> nat" where
  "loop_iterations A n =
     (if n < 2 then 0
      else length [1..<n - 1] + length (rev [0..<n - 2])
           + snd (pass3 (pass2 (fst (pass1 A n)) n) n))"

subsection \<open>Combined weights\<close>

text \<open>
  The combined weight of the internal node \<open>k\<close>: the value in \<open>A[k]\<close> immediately after
  the iteration \<open>next = k\<close> (for \<open>k = 0\<close>, after \<open>A[0] += A[1]\<close>).
\<close>

definition combined_weight :: "int list \<Rightarrow> nat \<Rightarrow> nat \<Rightarrow> int" where
  "combined_weight A n k = fst (pass1_upto A n (Suc k)) ! k"


subsection \<open>The program around the calculator\<close>

text \<open>
  The program \<open>main\<close> of inplace.c, as far as integers decide it. The input is the
  declared count \<open>n\<close>, as the first \<open>scanf\<close> leaves it in its cell, and the stream of
  integers written after it; \<open>scanf\<close> returns \<open>EOF\<close> when the stream is exhausted. A
  token that is not an integer is outside this model. The two \<open>malloc\<close> calls are a parameter:
  \<open>None\<close> when one of them fails, otherwise the two uninitialised buffers with whatever
  they hold. The result is the exit status and the trace of what the program did: a
  diagnostic on the error stream, the call of the calculator, the report on standard
  output. The report is kept as the integers it is printed from (the per-symbol lines,
  the frequencies, the total frequency and the total of bits); the floating-point
  summary lines are functions of these and are not modelled.
\<close>

definition LIMIT :: int where
  "LIMIT = 1000000000"

datatype diag = InvalidCount | AllocationFailure | OrderingViolation | ZeroTotal

datatype event =
    Diagnostic diag
  | Calculator_call "int list"
  | Report "(int \<times> int) list" "int list" int int

text \<open>
  The values a \<open>long long\<close> cell holds, and what \<open>scanf("%lld", ...)\<close> stores for an
  integer written in the input: the integer itself when it fits, and the nearest end of
  the range (\<open>LLONG_MAX\<close> or \<open>LLONG_MIN\<close>) when it does not.
\<close>

definition fits_long_long :: "int \<Rightarrow> bool" where
  "fits_long_long v \<longleftrightarrow> - (2 ^ 63) \<le> v \<and> v \<le> 2 ^ 63 - 1"

definition scan_lld :: "int \<Rightarrow> int" where
  "scan_lld v = max (- (2 ^ 63)) (min (2 ^ 63 - 1) v)"

text \<open>
  \<open>for (i=0; i<n; i++) { if (scanf("%lld", A+i) == EOF) { n = i; break; } }\<close>,
  returning the array and the count \<open>n\<close> as the loop leaves them.
\<close>

fun read_freqs :: "int list \<Rightarrow> nat \<Rightarrow> nat \<Rightarrow> int list \<Rightarrow> int list \<times> nat" where
  "read_freqs A n i [] = (A, if i < n then i else n)"
| "read_freqs A n i (v # vs) =
     (if i < n then read_freqs (A[i := scan_lld v]) n (i + 1) vs else (A, n))"

text \<open>
  The validation loop: \<open>totfreq += A[i]\<close>, then the test
  \<open>A[i] < 0 || (i>0 && A[i-1] > A[i])\<close>, whose failure is \<open>exit(1)\<close> (here \<open>None\<close>).
  The loop returns the total frequency, a sum in a 64-bit cell.
\<close>

function check_freqs :: "int list \<Rightarrow> nat \<Rightarrow> nat \<Rightarrow> int \<Rightarrow> int option" where
  "check_freqs A n i totfreq =
     (if i < n then
        (let totfreq' = wrap64 (totfreq + A ! i) in
         if A ! i < 0 \<or> (i > 0 \<and> A ! (i - 1) > A ! i) then None
         else check_freqs A n (i + 1) totfreq')
      else Some totfreq)"
  by pat_completeness auto
termination
  by (relation "measure (\<lambda>(A, n, i, totfreq). n - i)") auto

declare check_freqs.simps [simp del]

text \<open>\<open>for (i=0; i<n; i++) B[i] = A[i];\<close>\<close>

definition copy_freqs :: "int list \<Rightarrow> int list \<Rightarrow> nat \<Rightarrow> int list" where
  "copy_freqs A B n = foldl (\<lambda>B i. B[i := A ! i]) B [0..<n]"

text \<open>\<open>bits = 0; for (i=0; i<n; i++) bits += A[i] * B[i];\<close>\<close>

definition total_bits :: "int list \<Rightarrow> int list \<Rightarrow> nat \<Rightarrow> int" where
  "total_bits A B n = foldl (\<lambda>bits i. wrap64 (bits + wrap64 (A ! i * B ! i))) 0 [0..<n]"

text \<open>The pairs \<open>(B[i], A[i])\<close> printed one per line when \<open>n <= 100\<close>.\<close>

definition symbol_lines :: "int list \<Rightarrow> int list \<Rightarrow> nat \<Rightarrow> (int \<times> int) list" where
  "symbol_lines A B n = (if n \<le> 100 then map (\<lambda>i. (B ! i, A ! i)) [0..<n] else [])"

text \<open>
  The tests of \<open>main\<close> in their order: the count, the allocation, the frequencies, the
  total. Each failure prints its diagnostic and exits with status 1.
\<close>

definition main :: "int \<Rightarrow> (int list \<times> int list) option \<Rightarrow> int list \<Rightarrow> int \<times> event list" where
  "main n heap stream =
     (if n \<le> 0 \<or> n > LIMIT then (1, [Diagnostic InvalidCount])
      else case heap of
        None \<Rightarrow> (1, [Diagnostic AllocationFailure])
      | Some (A0, B0) \<Rightarrow>
          (case read_freqs A0 (nat n) 0 stream of (A, m) \<Rightarrow>
           (case check_freqs A m 0 0 of
              None \<Rightarrow> (1, [Diagnostic OrderingViolation])
            | Some totfreq \<Rightarrow>
                if totfreq \<le> 0 then (1, [Diagnostic ZeroTotal])
                else
                  let B = copy_freqs A B0 m;
                      L = calculate_minimum_redundancy A m
                  in (0, [Calculator_call (take m A),
                          Report (symbol_lines L B m) (take m B) totfreq (total_bits L B m)]))))"

subsection \<open>Vocabulary of the specification\<close>

text \<open>
  A valid frequency sequence is non-decreasing and non-negative; the Kraft sum of a
  sequence of lengths is the sum of \<open>2^(-l)\<close> over its members.
\<close>

definition valid_freqs :: "int list \<Rightarrow> bool" where
  "valid_freqs fs \<longleftrightarrow> sorted fs \<and> list_all (\<lambda>f. 0 \<le> f) fs"

definition kraft_sum :: "int list \<Rightarrow> real" where
  "kraft_sum ls = (\<Sum>l\<leftarrow>ls. 2 powi (- l))"

definition non_increasing :: "int list \<Rightarrow> bool" where
  "non_increasing ls \<longleftrightarrow> (\<forall>i j. i \<le> j \<and> j < length ls \<longrightarrow> ls ! j \<le> ls ! i)"


text \<open>
  The tie-break rule in the words of the specification: each of the two queues offers
  its front value if it has one; the root is preferred when its value is strictly less
  than the leaf's, the leaf otherwise, and a lone candidate is taken.
\<close>

datatype pick = PickRoot | PickLeaf

definition root_candidate :: "nat \<Rightarrow> int list \<Rightarrow> nat \<Rightarrow> int option" where
  "root_candidate next A rt = (if rt < next then Some (A ! rt) else None)"

definition leaf_candidate :: "nat \<Rightarrow> int list \<Rightarrow> nat \<Rightarrow> int option" where
  "leaf_candidate n A leaf = (if leaf < n then Some (A ! leaf) else None)"

fun tie_break :: "int option \<Rightarrow> int option \<Rightarrow> pick option" where
  "tie_break (Some r) (Some l) = Some (if r < l then PickRoot else PickLeaf)"
| "tie_break (Some r) None = Some PickRoot"
| "tie_break None (Some l) = Some PickLeaf"
| "tie_break None None = None"

section \<open>Loop invariants\<close>

text \<open>
  The slots below \<open>r\<close> hold parent pointers: each points to the right of its slot and
  is at most \<open>b\<close>, the pointers do not decrease, and no pointer occurs three times
  (an internal node has two children).
\<close>

definition ptrs_ok :: "int list \<Rightarrow> nat \<Rightarrow> int \<Rightarrow> bool" where
  "ptrs_ok A r b \<longleftrightarrow>
     (\<forall>i<r. int i < A ! i \<and> A ! i \<le> b) \<and>
     (\<forall>i j. i \<le> j \<and> j < r \<longrightarrow> A ! i \<le> A ! j) \<and>
     (\<forall>i. i + 2 < r \<longrightarrow> A ! i < A ! (i + 2))"

text \<open>
  The state on entry to the iteration \<open>next = k\<close> of the first pass, and the state
  between its two selections. Two items are consumed per iteration, so
  \<open>root + leaf = 2 * next\<close> on entry.
\<close>

fun p1_inv :: "nat \<Rightarrow> nat \<Rightarrow> int list \<times> nat \<times> nat \<Rightarrow> bool" where
  "p1_inv n k (A, rt, leaf) \<longleftrightarrow>
     n \<le> length A \<and> rt < k \<and> rt + leaf = 2 * k \<and> leaf \<le> n \<and> ptrs_ok A rt (int k - 1)"

fun p1_mid :: "nat \<Rightarrow> nat \<Rightarrow> int list \<times> nat \<times> nat \<Rightarrow> bool" where
  "p1_mid n k (A, rt, leaf) \<longleftrightarrow>
     n \<le> length A \<and> rt \<le> k \<and> rt + leaf = 2 * k + 1 \<and> leaf \<le> n \<and> ptrs_ok A rt (int k) \<and>
     (\<forall>i. i + 1 < rt \<longrightarrow> A ! i < int k)"

text \<open>
  What the second pass leaves: the depth of the last internal node is 0, and every other
  internal node is one level below its parent in \<open>P\<close>, the array of the first pass.
\<close>

definition depths_ok :: "int list \<Rightarrow> int list \<Rightarrow> nat \<Rightarrow> bool" where
  "depths_ok P D n \<longleftrightarrow> D ! (n - 2) = 0 \<and> (\<forall>i<n - 2. D ! i = D ! nat (P ! i) + 1)"

definition p2_inv :: "int list \<Rightarrow> nat \<Rightarrow> nat \<Rightarrow> int list \<Rightarrow> bool" where
  "p2_inv P n k A \<longleftrightarrow>
     length A = length P \<and> A ! (n - 2) = 0 \<and> (\<forall>i<k. A ! i = P ! i) \<and>
     (\<forall>i. k \<le> i \<and> i < n - 2 \<longrightarrow> A ! i = A ! nat (P ! i) + 1) \<and>
     (\<forall>i. n - 2 < i \<longrightarrow> A ! i = P ! i)"

text \<open>
  The state at the head of the outer loop of the third pass, \<open>D\<close> being the array of
  depths it started from. The slots up to \<open>root\<close> still hold the depths of the internal
  nodes not yet counted, all at least \<open>dpth\<close>; those already counted are less deep. The
  nodes of depth \<open>dpth\<close> fit into the \<open>avbl\<close> places of this level. The lengths written
  so far (above \<open>next\<close>) are at least 1, do not increase to the right, and together with
  the \<open>avbl\<close> places of depth \<open>dpth\<close> they make a Kraft sum of 1.
\<close>

definition p3_inv :: "int list \<Rightarrow> nat \<Rightarrow> int list \<Rightarrow> int \<Rightarrow> int \<Rightarrow> int \<Rightarrow> int \<Rightarrow> bool" where
  "p3_inv D n A r nx av d \<longleftrightarrow>
     length A = length D \<and> n \<le> length D \<and> - 1 \<le> r \<and> r \<le> int n - 2 \<and>
     (\<forall>i::nat. int i \<le> r \<longrightarrow> A ! i = D ! i) \<and>
     (\<forall>i::nat. n \<le> i \<longrightarrow> A ! i = D ! i) \<and>
     nx = r + av \<and> 0 \<le> av \<and> nx \<le> int n - 1 \<and>
     0 \<le> d \<and> (d = 0 \<longrightarrow> r = int n - 2 \<and> av = 1) \<and>
     (\<forall>i::nat. int i \<le> r \<longrightarrow> d \<le> D ! i) \<and>
     (\<forall>i::nat. r < int i \<and> i \<le> n - 2 \<longrightarrow> D ! i < d) \<and>
     (\<forall>i::nat. int i \<le> r \<and> D ! i = d \<longrightarrow> r - int i < av) \<and>
     (\<Sum>i = nat (nx + 1)..<n. 2 powi (- (A ! i))) + of_int av * 2 powi (- d) = (1::real) \<and>
     (\<forall>i j::nat. nx < int i \<and> i \<le> j \<and> j < n \<longrightarrow> A ! j \<le> A ! i) \<and>
     (\<forall>i::nat. nx < int i \<and> i < n \<longrightarrow> 1 \<le> A ! i \<and> A ! i \<le> d)"

text \<open>
  The values of the first pass on entry to the iteration \<open>next = k\<close>: the leaves from
  \<open>leaf\<close> on are the input, the internal nodes from \<open>root\<close> to \<open>k - 1\<close> are in
  non-decreasing order, every item still to be paired is at least the second item \<open>y\<close>
  of the last pairing, and the items still to be paired add up to the total frequency.
  \<open>q_mid\<close> is the state between the two selections, \<open>w\<close> the weight created last.
\<close>

definition q_inv :: "int list \<Rightarrow> nat \<Rightarrow> nat \<Rightarrow> int list \<Rightarrow> nat \<Rightarrow> nat \<Rightarrow> bool" where
  "q_inv fs n k A rt leaf \<longleftrightarrow>
     length A = n \<and>
     (\<forall>i. leaf \<le> i \<and> i < n \<longrightarrow> A ! i = fs ! i) \<and>
     (\<forall>i j. rt \<le> i \<and> i \<le> j \<and> j < k \<longrightarrow> A ! i \<le> A ! j) \<and>
     (\<exists>y. 0 \<le> y \<and> A ! (k - 1) \<le> 2 * y \<and>
          (\<forall>i. rt \<le> i \<and> i < k \<longrightarrow> y \<le> A ! i) \<and> (\<forall>i. leaf \<le> i \<and> i < n \<longrightarrow> y \<le> A ! i)) \<and>
     (\<Sum>i = rt..<k. A ! i) + (\<Sum>i = leaf..<n. A ! i) = sum_list fs"

definition q_mid :: "int list \<Rightarrow> nat \<Rightarrow> nat \<Rightarrow> int \<Rightarrow> int list \<Rightarrow> nat \<Rightarrow> nat \<Rightarrow> bool" where
  "q_mid fs n k w A rt leaf \<longleftrightarrow>
     length A = n \<and>
     (\<forall>i. leaf \<le> i \<and> i < n \<longrightarrow> A ! i = fs ! i) \<and>
     (\<forall>i j. rt \<le> i \<and> i \<le> j \<and> j < k \<longrightarrow> A ! i \<le> A ! j) \<and>
     (\<exists>y. 0 \<le> y \<and> w \<le> 2 * y \<and> y \<le> A ! k) \<and>
     (\<forall>i. rt \<le> i \<and> i < k \<longrightarrow> A ! k \<le> A ! i \<and> A ! i \<le> w) \<and>
     (\<forall>i. leaf \<le> i \<and> i < n \<longrightarrow> A ! k \<le> A ! i) \<and>
     A ! k + (\<Sum>i = rt..<k. A ! i) + (\<Sum>i = leaf..<n. A ! i) = sum_list fs"


section \<open>Proofs of the invariants\<close>

lemma ptrs_ok_update_above: "r \<le> k \<Longrightarrow> ptrs_ok (A[k := x]) r b = ptrs_ok A r b"
  by (simp add: ptrs_ok_def)

lemma ptrs_ok_weaken: "ptrs_ok A r b \<Longrightarrow> b \<le> b' \<Longrightarrow> ptrs_ok A r b'"
  unfolding ptrs_ok_def by force

lemma ptrs_ok_extend:
  assumes ok: "ptrs_ok A r b" and bv: "b \<le> v" and rv: "int r < v" and len: "r < length A"
    and two: "\<forall>i. i + 1 < r \<longrightarrow> A ! i < v"
  shows "ptrs_ok (A[r := v]) (Suc r) v"
proof -
  from ok have o1: "\<And>i. i < r \<Longrightarrow> int i < A ! i" and o2: "\<And>i. i < r \<Longrightarrow> A ! i \<le> b"
    and o3: "\<And>i j. i \<le> j \<Longrightarrow> j < r \<Longrightarrow> A ! i \<le> A ! j"
    and o4: "\<And>i. i + 2 < r \<Longrightarrow> A ! i < A ! (i + 2)"
    unfolding ptrs_ok_def by blast+
  have "int i < A[r := v] ! i \<and> A[r := v] ! i \<le> v" if "i < Suc r" for i
  proof -
    from that consider "i = r" | "i < r" by linarith
    then show ?thesis
    proof cases
      case 1 then show ?thesis using rv len by simp
    next
      case 2 then show ?thesis using o1 [OF 2] o2 [OF 2] bv by simp
    qed
  qed
  moreover have "A[r := v] ! i \<le> A[r := v] ! j" if "i \<le> j \<and> j < Suc r" for i j
  proof -
    from that consider "j = r" "i = r" | "j = r" "i < r" | "j < r" "i \<le> j" by linarith
    then show ?thesis
    proof cases
      case 1 then show ?thesis by simp
    next
      case 2 then show ?thesis using o2 [OF 2(2)] bv len by simp
    next
      case 3 then show ?thesis using o3 [OF 3(2) 3(1)] by simp
    qed
  qed
  moreover have "A[r := v] ! i < A[r := v] ! (i + 2)" if "i + 2 < Suc r" for i
  proof -
    from that consider "i + 2 = r" | "i + 2 < r" by linarith
    then show ?thesis
    proof cases
      case 1 then show ?thesis using two len by auto
    next
      case 2 then show ?thesis using o4 [OF 2] by simp
    qed
  qed
  ultimately show ?thesis unfolding ptrs_ok_def by blast
qed

lemma select_first_inv:
  assumes "p1_inv n k st" and "k + 1 < n"
  shows "p1_mid n k (select_first n k st)"
proof -
  obtain A rt leaf where st: "st = (A, rt, leaf)" by (cases st) auto
  from assms st have i: "n \<le> length A" "rt < k" "rt + leaf = 2 * k" "leaf \<le> n"
    "ptrs_ok A rt (int k - 1)" by auto
  have small: "\<forall>i<rt. A ! i < int k" using i(5) by (auto simp: ptrs_ok_def)
  show ?thesis
  proof (cases "take_root_first n A rt leaf")
    case True
    have "ptrs_ok (A[k := A ! rt]) rt (int k - 1)" using i by (simp add: ptrs_ok_update_above)
    then have "ptrs_ok ((A[k := A ! rt])[rt := int k]) (Suc rt) (int k)"
      using i assms(2) small by (intro ptrs_ok_extend) auto
    moreover have "\<forall>j. j + 1 < Suc rt \<longrightarrow> (A[k := A ! rt])[rt := int k] ! j < int k"
      using small i by (auto simp: nth_list_update)
    ultimately show ?thesis using True st i by simp
  next
    case False
    then have "leaf < n" by (auto simp: take_root_first_def)
    moreover have "ptrs_ok (A[k := A ! leaf]) rt (int k)"
      using i by (simp add: ptrs_ok_update_above ptrs_ok_weaken [OF i(5)])
    moreover have "\<forall>j. j + 1 < rt \<longrightarrow> A[k := A ! leaf] ! j < int k"
      using small i by (auto simp: nth_list_update)
    ultimately show ?thesis using False st i by simp
  qed
qed

lemma select_second_inv:
  assumes "p1_mid n k st" and "k + 1 < n"
  shows "p1_inv n (Suc k) (select_second n k st)"
proof -
  obtain A rt leaf where st: "st = (A, rt, leaf)" by (cases st) auto
  from assms st have i: "n \<le> length A" "rt \<le> k" "rt + leaf = 2 * k + 1" "leaf \<le> n"
    "ptrs_ok A rt (int k)" "\<forall>i. i + 1 < rt \<longrightarrow> A ! i < int k" by auto
  show ?thesis
  proof (cases "take_root_second n A rt leaf k")
    case True
    then have rk: "rt < k" using i assms(2) by (auto simp: take_root_second_def)
    let ?A = "A[k := wrap64 (A ! k + A ! rt)]"
    have "ptrs_ok ?A rt (int k)" using i by (simp add: ptrs_ok_update_above)
    moreover have "\<forall>j. j + 1 < rt \<longrightarrow> ?A ! j < int k" using i by (auto simp: nth_list_update)
    ultimately have "ptrs_ok (?A[rt := int k]) (Suc rt) (int k)"
      using i assms(2) rk by (intro ptrs_ok_extend) auto
    then show ?thesis using True st i rk by simp
  next
    case False
    then have "leaf < n" by (auto simp: take_root_second_def)
    moreover have "ptrs_ok (A[k := wrap64 (A ! k + A ! leaf)]) rt (int k)"
      using i by (simp add: ptrs_ok_update_above)
    ultimately show ?thesis using False st i by simp
  qed
qed

lemma pass1_body_inv: "p1_inv n k st \<Longrightarrow> k + 1 < n \<Longrightarrow> p1_inv n (Suc k) (pass1_body n st k)"
  unfolding pass1_body_def by (intro select_second_inv select_first_inv)

lemma pass1_upto_Suc: "1 \<le> k \<Longrightarrow> pass1_upto A n (Suc k) = pass1_body n (pass1_upto A n k) k"
  by (simp add: pass1_upto_def)

lemma pass1_upto_inv:
  assumes "2 \<le> n" "n \<le> length A"
  shows "1 \<le> k \<Longrightarrow> k < n \<Longrightarrow> p1_inv n k (pass1_upto A n k)"
proof (induction k)
  case 0 then show ?case by simp
next
  case (Suc k)
  show ?case
  proof (cases "k = 0")
    case True
    then show ?thesis using assms by (simp add: pass1_upto_def pass1_init_def ptrs_ok_def)
  next
    case False
    then have "p1_inv n k (pass1_upto A n k)" using Suc by simp
    then show ?thesis using Suc.prems False by (simp add: pass1_upto_Suc pass1_body_inv)
  qed
qed

lemma pass1_post:
  assumes "2 \<le> n" "n \<le> length A"
  obtains P where "pass1 A n = (P, n - 2, n)" and "n \<le> length P" and "ptrs_ok P (n - 2) (int n - 2)"
proof -
  have "p1_inv n (n - 1) (pass1_upto A n (n - 1))" using assms by (intro pass1_upto_inv) auto
  moreover obtain P rt leaf where st: "pass1 A n = (P, rt, leaf)" by (cases "pass1 A n") auto
  ultimately have "n \<le> length P" "rt < n - 1" "rt + leaf = 2 * (n - 1)" "leaf \<le> n"
    "ptrs_ok P rt (int (n - 1) - 1)" by (auto simp: pass1_def pass1_upto_def)
  moreover from this assms have "rt = n - 2" "leaf = n" by auto
  ultimately show ?thesis using st assms that by (auto simp: of_nat_diff)
qed

lemma pass2_from_0: "pass2 A n = pass2_from A n 0"
  by (simp add: pass2_def pass2_from_def)

lemma pass2_from_step: "k < n - 2 \<Longrightarrow> pass2_from A n k = pass2_body (pass2_from A n (Suc k)) k"
  by (simp add: pass2_from_def upt_conv_Cons)

lemma pass2_from_inv:
  assumes n: "2 \<le> n" "n \<le> length P" and ok: "ptrs_ok P (n - 2) (int n - 2)"
  shows "k \<le> n - 2 \<Longrightarrow> p2_inv P n k (pass2_from P n k)"
proof (induction "n - 2 - k" arbitrary: k)
  case 0
  then have "k = n - 2" by simp
  then show ?case using n by (simp add: pass2_from_def p2_inv_def)
next
  case (Suc m)
  then have k: "k < n - 2" and IH: "p2_inv P n (Suc k) (pass2_from P n (Suc k))" by auto
  define A where "A = pass2_from P n (Suc k)"
  from IH have len: "length A = length P" and z: "A ! (n - 2) = 0"
    and lo: "\<And>i. i < Suc k \<Longrightarrow> A ! i = P ! i"
    and hi: "\<And>i. Suc k \<le> i \<Longrightarrow> i < n - 2 \<Longrightarrow> A ! i = A ! nat (P ! i) + 1"
    and top: "\<And>i. n - 2 < i \<Longrightarrow> A ! i = P ! i"
    unfolding A_def p2_inv_def by blast+
  have ptr: "int i < P ! i \<and> P ! i \<le> int n - 2" if "i < n - 2" for i
    using ok that unfolding ptrs_ok_def by blast
  let ?B = "A[k := A ! nat (A ! k) + 1]"
  have B: "pass2_from P n k = ?B" using k by (simp add: pass2_from_step pass2_body_def A_def)
  have klen: "k < length A" using k n len by simp
  have nth_other: "?B ! j = A ! j" if "j \<noteq> k" for j using that by simp
  have "length ?B = length P" using len by simp
  moreover have "?B ! (n - 2) = 0" using z k by simp
  moreover have "\<forall>i<k. ?B ! i = P ! i" using lo by simp
  moreover have "?B ! i = ?B ! nat (P ! i) + 1" if "k \<le> i \<and> i < n - 2" for i
  proof (cases "i = k")
    case True
    have "nat (P ! k) \<noteq> k" using ptr [OF k] by linarith
    then show ?thesis using True klen lo [of k] by simp
  next
    case False
    then have "Suc k \<le> i" using that by simp
    moreover have "nat (P ! i) \<noteq> k" using ptr [of i] that by linarith
    ultimately show ?thesis using hi [of i] that False by simp
  qed
  moreover have "\<forall>i. n - 2 < i \<longrightarrow> ?B ! i = P ! i" using top k by simp
  ultimately show ?case unfolding B p2_inv_def by blast
qed

lemma pass2_post:
  assumes "2 \<le> n" "n \<le> length P" "ptrs_ok P (n - 2) (int n - 2)"
  shows "length (pass2 P n) = length P" and "depths_ok P (pass2 P n) n"
    and "\<And>i. n - 2 < i \<Longrightarrow> pass2 P n ! i = P ! i"
  using pass2_from_inv [OF assms, of 0] unfolding pass2_from_0 p2_inv_def depths_ok_def
  by auto

lemma depths_pos:
  assumes ok: "ptrs_ok P (n - 2) (int n - 2)" and d: "depths_ok P D n"
  shows "i < n - 2 \<Longrightarrow> 1 \<le> D ! i"
proof (induction "n - 2 - i" arbitrary: i rule: less_induct)
  case less
  have ptr: "int i < P ! i" "P ! i \<le> int n - 2" using ok less.prems unfolding ptrs_ok_def by blast+
  have eq: "D ! i = D ! nat (P ! i) + 1" using d less.prems unfolding depths_ok_def by blast
  show ?case
  proof (cases "nat (P ! i) = n - 2")
    case True
    then show ?thesis using eq d unfolding depths_ok_def by simp
  next
    case False
    then have lt: "nat (P ! i) < n - 2" using ptr by linarith
    moreover have "n - 2 - nat (P ! i) < n - 2 - i" using ptr lt by linarith
    ultimately have "1 \<le> D ! nat (P ! i)" using less.hyps by blast
    then show ?thesis using eq by simp
  qed
qed

lemma depths_nonneg:
  assumes "ptrs_ok P (n - 2) (int n - 2)" and "depths_ok P D n" and "i \<le> n - 2"
  shows "0 \<le> D ! i"
proof (cases "i = n - 2")
  case True then show ?thesis using assms(2) unfolding depths_ok_def by simp
next
  case False
  then have "i < n - 2" using assms(3) by simp
  from depths_pos [OF assms(1,2) this] show ?thesis by simp
qed

lemma depths_mono:
  assumes ok: "ptrs_ok P (n - 2) (int n - 2)" and d: "depths_ok P D n"
  shows "i \<le> j \<Longrightarrow> j \<le> n - 2 \<Longrightarrow> D ! j \<le> D ! i"
proof (induction "n - 2 - i" arbitrary: i j rule: less_induct)
  case less
  show ?case
  proof (cases "j = n - 2")
    case True
    then show ?thesis using depths_nonneg [OF ok d, of i] less.prems d unfolding depths_ok_def by simp
  next
    case False
    then have j: "j < n - 2" and i: "i < n - 2" using less.prems by auto
    have pi: "int i < P ! i" "P ! i \<le> int n - 2" using ok i unfolding ptrs_ok_def by blast+
    have pj: "int j < P ! j" "P ! j \<le> int n - 2" using ok j unfolding ptrs_ok_def by blast+
    have pij: "P ! i \<le> P ! j" using ok less.prems(1) j unfolding ptrs_ok_def by blast
    have "n - 2 - nat (P ! i) < n - 2 - i" using pi i by linarith
    moreover have "nat (P ! i) \<le> nat (P ! j)" using pij by simp
    moreover have "nat (P ! j) \<le> n - 2" using pj by linarith
    ultimately have "D ! nat (P ! j) \<le> D ! nat (P ! i)" using less.hyps by blast
    moreover have "D ! i = D ! nat (P ! i) + 1" "D ! j = D ! nat (P ! j) + 1"
      using d i j unfolding depths_ok_def by blast+
    ultimately show ?thesis by simp
  qed
qed

lemma scan_roots_spec:
  "scan_roots A d (u, r, t) = (u', r', t') \<Longrightarrow>
     r' \<le> r \<and> u' = u + (r - r') \<and> int t' = int t + (r - r') \<and>
     (\<forall>i::nat. r' < int i \<and> int i \<le> r \<longrightarrow> A ! i = d) \<and>
     (r' < 0 \<or> A ! nat r' \<noteq> d) \<and> (- 1 \<le> r \<longrightarrow> - 1 \<le> r')"
proof (induction A d "(u, r, t)" arbitrary: u r t rule: scan_roots.induct)
  case (1 A d u r t)
  show ?case
  proof (cases "r \<ge> 0 \<and> A ! nat r = d")
    case True
    with 1(2) have eq: "scan_roots A d (u + 1, r - 1, t + 1) = (u', r', t')"
      by (simp add: scan_roots.simps [of A d u r t])
    note IH = 1(1) [OF True eq]
    have "A ! i = d" if "r' < int i \<and> int i \<le> r" for i
    proof (cases "int i = r")
      case True
      then have "nat r = i" by simp
      then show ?thesis using \<open>r \<ge> 0 \<and> A ! nat r = d\<close> by simp
    next
      case False
      then show ?thesis using IH that by simp
    qed
    then show ?thesis using IH True by auto
  next
    case False
    with 1(2) have "u' = u" "r' = r" "t' = t" by (simp_all add: scan_roots.simps [of A d u r t])
    then show ?thesis using False by auto
  qed
qed

lemma fill_leaves_count:
  "fill_leaves d u (A, nx, av, t) = (A', nx', av', t') \<Longrightarrow>
     nx' = nx - max 0 (av - u) \<and> int t' = int t + max 0 (av - u) \<and> length A' = length A"
proof (induction d u "(A, nx, av, t)" arbitrary: A nx av t rule: fill_leaves.induct)
  case (1 d u A nx av t)
  show ?case
  proof (cases "av > u")
    case True
    with 1(2) have eq: "fill_leaves d u (store A nx d, nx - 1, av - 1, t + 1) = (A', nx', av', t')"
      by (simp add: fill_leaves.simps [of d u A nx av t])
    from 1(1) [OF True eq] True show ?thesis by (auto simp: max_def store_def)
  next
    case False
    with 1(2) have "A' = A" "nx' = nx" "t' = t" by (simp_all add: fill_leaves.simps [of d u A nx av t])
    then show ?thesis using False by (auto simp: max_def)
  qed
qed

lemma fill_leaves_spec:
  "fill_leaves d u (A, nx, av, t) = (A', nx', av', t') \<Longrightarrow> - 1 \<le> nx - (av - u) \<Longrightarrow>
     (\<forall>i::nat. A' ! i = (if nx' < int i \<and> int i \<le> nx \<and> i < length A then d else A ! i))"
proof (induction d u "(A, nx, av, t)" arbitrary: A nx av t rule: fill_leaves.induct)
  case (1 d u A nx av t)
  show ?case
  proof (cases "av > u")
    case True
    with 1(2) have eq: "fill_leaves d u (store A nx d, nx - 1, av - 1, t + 1) = (A', nx', av', t')"
      by (simp add: fill_leaves.simps [of d u A nx av t])
    have "- 1 \<le> nx - 1 - (av - 1 - u)" using 1(3) by simp
    note IH = 1(1) [OF True eq this]
    have nx': "nx' = nx - 1 - max 0 (av - 1 - u)" using fill_leaves_count [OF eq] by simp
    have nx0: "0 \<le> nx" using 1(3) True by simp
    have st: "store A nx d = A[nat nx := d]" using nx0 by (simp add: store_def)
    have "A' ! i = (if nx' < int i \<and> int i \<le> nx \<and> i < length A then d else A ! i)" for i
    proof (cases "int i = nx")
      case True
      then have i: "nat nx = i" by simp
      have lt: "nx' < int i" "\<not> int i \<le> nx - 1" using nx' True \<open>av > u\<close> by simp_all
      have "A' ! i = A[i := d] ! i" using IH lt st i by simp
      then show ?thesis using True lt by (cases "i < length A") (simp_all add: list_update_beyond)
    next
      case False
      then have ne: "nat nx \<noteq> i" using nx0 by linarith
      have "A' ! i = (if nx' < int i \<and> int i \<le> nx - 1 \<and> i < length A then d else A ! i)"
        using IH st ne by simp
      then show ?thesis using False by (simp add: order_less_le cong: conj_cong)
    qed
    then show ?thesis by blast
  next
    case False
    with 1(2) have "A' = A" "nx' = nx" "t' = t" by (simp_all add: fill_leaves.simps [of d u A nx av t])
    then show ?thesis using False by (auto simp: max_def)
  qed
qed

lemma pass3_loop_stop: "\<not> 0 < av \<Longrightarrow> pass3_loop (A, r, nx, av, d, t) = (A, t)"
  by (simp add: pass3_loop.simps)

lemma pass3_loop_step:
  "0 < av \<Longrightarrow> scan_roots A d (0, r, t) = (u, r', t1) \<Longrightarrow>
   fill_leaves d u (A, nx, av, t1) = (A', nx', av', t2) \<Longrightarrow>
   pass3_loop (A, r, nx, av, d, t) = pass3_loop (A', r', nx', 2 * u, d + 1, t2 + 1)"
  by (simp add: pass3_loop.simps [of A r nx av d t])

lemma pass3_loop_induct:
  assumes "\<And>A r nx av d t.
     (\<And>u r' t1 A' nx' av' t2. 0 < av \<Longrightarrow> scan_roots A d (0, r, t) = (u, r', t1) \<Longrightarrow>
        fill_leaves d u (A, nx, av, t1) = (A', nx', av', t2) \<Longrightarrow>
        Q A' r' nx' (2 * u) (d + 1) (t2 + 1)) \<Longrightarrow> Q A r nx av d t"
  shows "Q A r nx av d t"
proof -
  have "(\<lambda>(A, r, nx, av, d, t). Q A r nx av d t) (A, r, nx, av, d, t)"
  proof (rule pass3_loop.induct, goal_cases)
    case (1 A r nx av d t)
    show ?case
      unfolding prod.case
    proof (rule assms)
      fix u r' t1 A' nx' av' t2
      assume a: "0 < av" "scan_roots A d (0, r, t) = (u, r', t1)"
        "fill_leaves d u (A, nx, av, t1) = (A', nx', av', t2)"
      from 1 [OF a(1) a(2) [symmetric] refl a(3) [symmetric] refl refl]
      show "Q A' r' nx' (2 * u) (d + 1) (t2 + 1)" by simp
    qed
  qed
  then show ?thesis by simp
qed

lemma pass3_loop_ticks:
  "- 1 \<le> r \<Longrightarrow> 0 \<le> av \<Longrightarrow>
   int (snd (pass3_loop (A, r, nx, av, d, t))) \<le> int t + (if 0 < av then 3 * (r + 1) + av + 1 else 0)"
proof (induction A r nx av d t rule: pass3_loop_induct)
  case (1 A r nx av d t)
  show ?case
  proof (cases "0 < av")
    case False
    then show ?thesis by (simp add: pass3_loop_stop)
  next
    case True
    obtain u r' t1 where sc: "scan_roots A d (0, r, t) = (u, r', t1)"
      by (cases "scan_roots A d (0, r, t)") auto
    obtain A' nx' av' t2 where fl: "fill_leaves d u (A, nx, av, t1) = (A', nx', av', t2)"
      by (cases "fill_leaves d u (A, nx, av, t1)") auto
    from scan_roots_spec [OF sc] 1(2) have s: "r' \<le> r" "u = r - r'" "int t1 = int t + (r - r')" "- 1 \<le> r'"
      by auto
    from fill_leaves_count [OF fl] have f: "int t2 = int t1 + max 0 (av - u)"
      by auto
    have u0: "0 \<le> 2 * u" using s by simp
    from 1(1) [OF True sc fl s(4) u0]
    have IH: "int (snd (pass3_loop (A', r', nx', 2 * u, d + 1, t2 + 1)))
        \<le> int (t2 + 1) + (if 0 < 2 * u then 3 * (r' + 1) + 2 * u + 1 else 0)" by simp
    show ?thesis
      unfolding pass3_loop_step [OF True sc fl] using IH s f True by (auto simp: max_def split: if_splits)
  qed
qed

lemma ptr_spread:
  assumes ok: "ptrs_ok P m b"
  shows "i + 2 * k < m \<Longrightarrow> P ! i + int k \<le> P ! (i + 2 * k)"
proof (induction k)
  case 0 then show ?case by simp
next
  case (Suc k)
  then have "i + 2 * k + 2 < m" by simp
  then have "P ! (i + 2 * k) < P ! (i + 2 * k + 2)" using ok unfolding ptrs_ok_def by blast
  moreover have "P ! i + int k \<le> P ! (i + 2 * k)" using Suc by simp
  ultimately show ?case by (simp add: add.commute add.left_commute)
qed

lemma ptr_spread_le:
  assumes ok: "ptrs_ok P m b" and ij: "i \<le> j" "j < m"
  shows "P ! i + int ((j - i) div 2) \<le> P ! j"
proof -
  define k where "k = (j - i) div 2"
  have le: "i + 2 * k \<le> j" unfolding k_def using ij by simp
  then have "P ! i + int k \<le> P ! (i + 2 * k)" using ptr_spread [OF ok, of i k] ij by simp
  moreover have "P ! (i + 2 * k) \<le> P ! j" using ok le ij unfolding ptrs_ok_def by blast
  ultimately show ?thesis unfolding k_def by simp
qed

lemma half_powi: "2 * (2::real) powi (- (d + 1)) = 2 powi (- d)"
proof -
  have "(2::real) powi (- d) = 2 powi (- (d + 1) + 1)" by simp
  also have "\<dots> = 2 powi (- (d + 1)) * 2" by (rule power_int_add_1) simp
  finally show ?thesis by simp
qed

lemma p3_step:
  assumes ok: "ptrs_ok P (n - 2) (int n - 2)" and dk: "depths_ok P D n" and n2: "2 \<le> n"
    and inv: "p3_inv D n A r nx av d" and av: "0 < av"
    and sc: "scan_roots A d (0, r, t) = (u, r', t1)"
    and fl: "fill_leaves d u (A, nx, av, t1) = (A', nx', av', t2)"
  shows "p3_inv D n A' r' nx' (2 * u) (d + 1)"
proof -
  from inv have len: "length A = length D" "n \<le> length D" and rb: "- 1 \<le> r" "r \<le> int n - 2"
    and c: "\<And>i::nat. int i \<le> r \<Longrightarrow> A ! i = D ! i"
    and l: "\<And>i::nat. n \<le> i \<Longrightarrow> A ! i = D ! i"
    and nx: "nx = r + av" "nx \<le> int n - 1" and d0: "0 \<le> d" and k: "d = 0 \<Longrightarrow> r = int n - 2 \<and> av = 1"
    and e: "\<And>i::nat. int i \<le> r \<Longrightarrow> d \<le> D ! i"
    and f: "\<And>i::nat. r < int i \<Longrightarrow> i \<le> n - 2 \<Longrightarrow> D ! i < d"
    and g: "\<And>i::nat. int i \<le> r \<Longrightarrow> D ! i = d \<Longrightarrow> r - int i < av"
    and h: "(\<Sum>i = nat (nx + 1)..<n. 2 powi (- (A ! i))) + of_int av * 2 powi (- d) = (1::real)"
    and srt: "\<And>i j::nat. nx < int i \<Longrightarrow> i \<le> j \<Longrightarrow> j < n \<Longrightarrow> A ! j \<le> A ! i"
    and rng: "\<And>i::nat. nx < int i \<Longrightarrow> i < n \<Longrightarrow> 1 \<le> A ! i \<and> A ! i \<le> d"
    unfolding p3_inv_def by blast+
  from scan_roots_spec [OF sc] rb have s: "r' \<le> r" "u = r - r'" "- 1 \<le> r'"
    and s3: "\<And>i::nat. r' < int i \<Longrightarrow> int i \<le> r \<Longrightarrow> A ! i = d"
    and s4: "r' < 0 \<or> A ! nat r' \<noteq> d" by auto
  have cons: "D ! i = d" if "r' < int i" "int i \<le> r" for i :: nat
    using s3 [OF that] c [OF that(2)] by simp
  have dz: "D ! (n - 2) = 0" using dk unfolding depths_ok_def by blast
  have dstep: "D ! i = D ! nat (P ! i) + 1" if "i < n - 2" for i
    using dk that unfolding depths_ok_def by blast
  have ptr: "int i < P ! i \<and> P ! i \<le> int n - 2" if "i < n - 2" for i
    using ok that unfolding ptrs_ok_def by blast

  have ule: "u \<le> av"
  proof (cases "u = 0")
    case True then show ?thesis using av by simp
  next
    case False
    then have "r' < r" using s by simp
    then have "int (nat (r' + 1)) \<le> r" "r' < int (nat (r' + 1))" using s by simp_all
    from g [OF this(1) cons [OF this(2) this(1)]] s show ?thesis by simp
  qed

  have upos: "1 \<le> u" if "d = 0"
  proof (rule ccontr)
    assume "\<not> 1 \<le> u"
    then have "r' = r" using s by simp
    moreover have "r = int n - 2" using k that by simp
    moreover have "nat r = n - 2" using \<open>r = int n - 2\<close> n2 by simp
    moreover have "A ! (n - 2) = D ! (n - 2)" using c [of "n - 2"] \<open>r = int n - 2\<close> n2 by simp
    ultimately show False using s4 dz that n2 by simp
  qed
  have pre: "- 1 \<le> nx - (av - u)" using nx s rb by simp
  from fill_leaves_count [OF fl] ule have nx': "nx' = nx - (av - u)" and len': "length A' = length A"
    by (simp_all add: max_def)
  from fill_leaves_spec [OF fl pre]
  have upd: "\<And>i::nat. A' ! i = (if nx' < int i \<and> int i \<le> nx \<and> i < length A then d else A ! i)"
    by blast
  have nxr: "nx' = r' + 2 * u" using nx' nx s by simp
  have new: "A' ! i = d" if "nx' < int i" "int i \<le> nx" for i :: nat
  proof -
    have "i < length A" using that nx len by simp
    then show ?thesis using upd [of i] that by simp
  qed
  have old: "A' ! i = A ! i" if "int i \<le> nx' \<or> nx < int i" for i :: nat
    using upd [of i] that by auto

  have e': "d + 1 \<le> D ! i" if "int i \<le> r'" for i :: nat
  proof -
    have r0: "0 \<le> r'" using that by simp
    then have "A ! nat r' \<noteq> d" using s4 by simp
    moreover have "A ! nat r' = D ! nat r'" using c [of "nat r'"] r0 s by simp
    moreover have "d \<le> D ! nat r'" using e [of "nat r'"] r0 s by simp
    ultimately have "d + 1 \<le> D ! nat r'" by simp
    moreover have "D ! nat r' \<le> D ! i"
      using depths_mono [OF ok dk, of i "nat r'"] that r0 s rb by simp
    ultimately show ?thesis by simp
  qed
  have f': "D ! i < d + 1" if "r' < int i" "i \<le> n - 2" for i :: nat
  proof (cases "int i \<le> r")
    case True then show ?thesis using cons [OF that(1)] by simp
  next
    case False then show ?thesis using f [of i] that by simp
  qed
  have g': "r' - int i < 2 * u" if "int i \<le> r'" "D ! i = d + 1" for i :: nat
  proof -
    define j where "j = nat r'"
    have j: "int j = r'" "i \<le> j" using that unfolding j_def by simp_all
    have jn: "j < n - 2"
    proof (rule ccontr)
      assume "\<not> j < n - 2"
      then have "j = n - 2" using j s rb by simp
      then have "D ! j = 0" using dz by simp
      moreover have "d + 1 \<le> D ! j" using e' [of j] j by simp
      ultimately show False using d0 by simp
    qed
    then have i_n: "i < n - 2" using j by simp
    have pi: "r' < P ! i"
    proof (rule ccontr)
      assume "\<not> r' < P ! i"
      then have "int (nat (P ! i)) \<le> r'" using ptr [OF i_n] by simp
      from e' [OF this] dstep [OF i_n] that show False by simp
    qed
    have pj: "P ! j \<le> r"
    proof (rule ccontr)
      assume "\<not> P ! j \<le> r"
      moreover have "nat (P ! j) \<le> n - 2" using ptr [OF jn] n2 by linarith
      ultimately have "r < int (nat (P ! j))" "nat (P ! j) \<le> n - 2" using ptr [OF jn] by simp_all
      from f [OF this] dstep [OF jn] e' [of j] j show False by simp
    qed
    have "P ! i + int ((j - i) div 2) \<le> P ! j" using ptr_spread_le [OF ok j(2) jn] .
    then have "int ((j - i) div 2) < r - r'" using pi pj by simp
    then have "int (j - i) div 2 < u" using s by (simp add: zdiv_int)
    then have "int (j - i) < 2 * u" by simp
    then show ?thesis using j by (simp add: of_nat_diff)
  qed

  have split: "(\<Sum>i = nat (nx' + 1)..<n. 2 powi (- (A' ! i)))
      = (\<Sum>i = nat (nx' + 1)..<nat (nx + 1). 2 powi (- (A' ! i)))
        + (\<Sum>i = nat (nx + 1)..<n. (2::real) powi (- (A' ! i)))"
    using nx nx' ule by (intro sum.atLeastLessThan_concat [symmetric]) simp_all
  have s_new: "(\<Sum>i = nat (nx' + 1)..<nat (nx + 1). (2::real) powi (- (A' ! i)))
      = of_int (av - u) * 2 powi (- d)"
  proof -
    have "(\<Sum>i = nat (nx' + 1)..<nat (nx + 1). (2::real) powi (- (A' ! i)))
        = (\<Sum>i = nat (nx' + 1)..<nat (nx + 1). 2 powi (- d))"
    proof (intro sum.cong refl)
      fix x assume "x \<in> {nat (nx' + 1)..<nat (nx + 1)}"
      then have "nx' < int x" "int x \<le> nx" by auto
      from new [OF this] show "(2::real) powi (- (A' ! x)) = 2 powi (- d)" by simp
    qed
    also have "\<dots> = of_nat (nat (nx + 1) - nat (nx' + 1)) * 2 powi (- d)" by simp
    also have "of_nat (nat (nx + 1) - nat (nx' + 1)) = (of_int (av - u) :: real)"
    proof -
      have "int (nat (nx + 1) - nat (nx' + 1)) = av - u" using nx' nxr s ule by simp
      then show ?thesis by (metis of_int_of_nat_eq)
    qed
    finally show ?thesis .
  qed
  have s_old: "(\<Sum>i = nat (nx + 1)..<n. (2::real) powi (- (A' ! i)))
      = (\<Sum>i = nat (nx + 1)..<n. 2 powi (- (A ! i)))"
  proof (intro sum.cong refl)
    fix x assume "x \<in> {nat (nx + 1)..<n}"
    then have "nx < int x" by auto
    then show "(2::real) powi (- (A' ! x)) = 2 powi (- (A ! x))" using old [of x] by simp
  qed
  have h': "(\<Sum>i = nat (nx' + 1)..<n. 2 powi (- (A' ! i))) + of_int (2 * u) * 2 powi (- (d + 1)) = (1::real)"
  proof -
    have "of_int (2 * u) * (2::real) powi (- (d + 1)) = of_int u * (2 * 2 powi (- (d + 1)))" by simp
    also have "\<dots> = of_int u * 2 powi (- d)" by (simp only: half_powi)
    finally show ?thesis using h unfolding split s_new s_old by (simp add: algebra_simps)
  qed

  have wr: "1 \<le> d" if "u < av"
  proof (rule ccontr)
    assume "\<not> 1 \<le> d"
    then have "d = 0" using d0 by simp
    from upos [OF this] k [OF this] that show False by simp
  qed
  have srt': "A' ! j \<le> A' ! i" if "nx' < int i" "i \<le> j" "j < n" for i j :: nat
  proof (cases "int j \<le> nx")
    case True
    then show ?thesis using new [of i] new [of j] that by simp
  next
    case False
    then have oj: "A' ! j = A ! j" using old by simp
    show ?thesis
    proof (cases "int i \<le> nx")
      case True
      then show ?thesis using new [of i] oj rng [of j] that False by simp
    next
      case False
      then show ?thesis using oj old [of i] srt [of i j] that by simp
    qed
  qed
  have rng': "1 \<le> A' ! i \<and> A' ! i \<le> d + 1" if "nx' < int i" "i < n" for i :: nat
  proof (cases "int i \<le> nx")
    case True
    then have "u < av" using that nx' by simp
    from wr [OF this] new [OF that(1) True] show ?thesis by simp
  next
    case False
    then show ?thesis using old [of i] rng [of i] that by simp
  qed
  have c': "A' ! i = D ! i" if "int i \<le> r'" for i :: nat
  proof -
    have "int i \<le> nx'" using that nxr s by simp
    then show ?thesis using old [of i] c [of i] that s by simp
  qed
  have l': "A' ! i = D ! i" if "n \<le> i" for i :: nat
  proof -
    have "nx < int i" using that nx by simp
    then show ?thesis using old [of i] l [OF that] by simp
  qed
  have "length A' = length D" using len len' by simp
  moreover have "- 1 \<le> r'" "r' \<le> int n - 2" using s rb by simp_all
  moreover have "nx' = r' + 2 * u" "0 \<le> 2 * u" "nx' \<le> int n - 1" using nxr s nx' nx ule by simp_all
  moreover have "0 \<le> d + 1" "d + 1 = 0 \<longrightarrow> r' = int n - 2 \<and> 2 * u = 1" using d0 by simp_all
  ultimately show ?thesis
    unfolding p3_inv_def using len(2) c' l' e' f' g' h' srt' rng' by blast
qed

lemma p3_stop:
  assumes ok: "ptrs_ok P (n - 2) (int n - 2)" and dk: "depths_ok P D n" and n2: "2 \<le> n"
    and inv: "p3_inv D n A r nx av d" and av: "\<not> 0 < av"
  shows "r = - 1 \<and> nx = - 1 \<and> av = 0"
proof -
  from inv have rb: "- 1 \<le> r" "r \<le> int n - 2"
    and nx: "nx = r + av" "0 \<le> av" and d0: "0 \<le> d" and k: "d = 0 \<Longrightarrow> r = int n - 2 \<and> av = 1"
    and e: "\<And>i::nat. int i \<le> r \<Longrightarrow> d \<le> D ! i"
    and f: "\<And>i::nat. r < int i \<Longrightarrow> i \<le> n - 2 \<Longrightarrow> D ! i < d"
    and g: "\<And>i::nat. int i \<le> r \<Longrightarrow> D ! i = d \<Longrightarrow> r - int i < av"
    unfolding p3_inv_def by blast+
  have av0: "av = 0" using av nx by simp
  have "r = - 1"
  proof (rule ccontr)
    assume "r \<noteq> - 1"
    then have r0: "0 \<le> r" using rb by simp
    define j where "j = nat r"
    have j: "int j = r" using r0 unfolding j_def by simp
    have d1: "1 \<le> d" using k av0 d0 by (cases "d = 0") auto
    have "D ! j \<noteq> d" using g [of j] j av0 by auto
    then have dj: "d < D ! j" using e [of j] j by simp
    have dz: "D ! (n - 2) = 0" using dk unfolding depths_ok_def by blast
    have jn: "j < n - 2"
    proof (rule ccontr)
      assume "\<not> j < n - 2"
      then have "j = n - 2" using j rb by simp
      then show False using dz dj d0 by simp
    qed
    have ptr: "int j < P ! j \<and> P ! j \<le> int n - 2" using ok jn unfolding ptrs_ok_def by blast
    have "D ! j = D ! nat (P ! j) + 1" using dk jn unfolding depths_ok_def by blast
    moreover have "nat (P ! j) \<le> n - 2" using ptr n2 by linarith
    then have "D ! nat (P ! j) < d" using f [of "nat (P ! j)"] ptr j by simp
    ultimately show False using dj by simp
  qed
  then show ?thesis using av0 nx by simp
qed

lemma p3_final:
  assumes ok: "ptrs_ok P (n - 2) (int n - 2)" and dk: "depths_ok P D n" and n2: "2 \<le> n"
  shows "p3_inv D n A r nx av d \<Longrightarrow>
    \<exists>d'. p3_inv D n (fst (pass3_loop (A, r, nx, av, d, t))) (- 1) (- 1) 0 d'"
proof (induction A r nx av d t rule: pass3_loop_induct)
  case (1 A r nx av d t)
  show ?case
  proof (cases "0 < av")
    case False
    from p3_stop [OF ok dk n2 1(2) False] 1(2) have "p3_inv D n A (- 1) (- 1) 0 d" by simp
    then show ?thesis unfolding pass3_loop_stop [OF False] by auto
  next
    case True
    obtain u r' t1 where sc: "scan_roots A d (0, r, t) = (u, r', t1)"
      by (cases "scan_roots A d (0, r, t)") auto
    obtain A' nx' av' t2 where fl: "fill_leaves d u (A, nx, av, t1) = (A', nx', av', t2)"
      by (cases "fill_leaves d u (A, nx, av, t1)") auto
    from 1(1) [OF True sc fl p3_step [OF ok dk n2 1(2) True sc fl]]
    show ?thesis unfolding pass3_loop_step [OF True sc fl] .
  qed
qed

lemma p3_init:
  assumes ok: "ptrs_ok P (n - 2) (int n - 2)" and dk: "depths_ok P D n" and n2: "2 \<le> n"
    and len: "n \<le> length D"
  shows "p3_inv D n D (int n - 2) (int n - 1) 1 0"
proof -
  have g: "int n - 2 - int i < 1" if "int i \<le> int n - 2" "D ! i = 0" for i :: nat
  proof (rule ccontr)
    assume "\<not> int n - 2 - int i < 1"
    then have "i < n - 2" using n2 by linarith
    from depths_pos [OF ok dk this] that show False by simp
  qed
  have e: "0 \<le> D ! i" if "int i \<le> int n - 2" for i :: nat
  proof -
    have "i \<le> n - 2" using that n2 by linarith
    from depths_nonneg [OF ok dk this] show ?thesis .
  qed
  have f: "D ! i < 0" if "int n - 2 < int i" "i \<le> n - 2" for i :: nat
    using that n2 by linarith
  have h: "(\<Sum>i = nat (int n - 1 + 1)..<n. 2 powi (- (D ! i))) + of_int 1 * 2 powi (- 0) = (1::real)"
    by simp
  have s: "D ! j \<le> D ! i" "1 \<le> D ! i \<and> D ! i \<le> 0" if "int n - 1 < int i" "i < n" for i j :: nat
    using that by linarith+
  show ?thesis
    unfolding p3_inv_def using len n2 e f g h s by simp
qed

lemma pass3_result:
  assumes ok: "ptrs_ok P (n - 2) (int n - 2)" and dk: "depths_ok P D n" and n2: "2 \<le> n"
    and len: "n \<le> length D"
  defines "L \<equiv> fst (pass3 D n)"
  shows "length L = length D" and "\<And>i. n \<le> i \<Longrightarrow> L ! i = D ! i"
    and "kraft_sum (take n L) = 1" and "non_increasing (take n L)"
    and "\<And>i. i < n \<Longrightarrow> 1 \<le> L ! i"
proof -
  from p3_final [OF ok dk n2 p3_init [OF ok dk n2 len], of 0]
  obtain d' where inv: "p3_inv D n L (- 1) (- 1) 0 d'" unfolding L_def pass3_def by blast
  from inv show "length L = length D" unfolding p3_inv_def by blast
  then have nl: "n \<le> length L" using len by simp
  from inv show "\<And>i. n \<le> i \<Longrightarrow> L ! i = D ! i" unfolding p3_inv_def by blast
  from inv have h: "(\<Sum>i = nat (- 1 + 1)..<n. 2 powi (- (L ! i))) + of_int 0 * 2 powi (- d') = (1::real)"
    unfolding p3_inv_def by blast
  have "kraft_sum (take n L) = (\<Sum>i = 0..<n. 2 powi (- (take n L ! i)))"
    unfolding kraft_sum_def using nl by (simp add: sum_list_sum_nth)
  also have "\<dots> = (\<Sum>i = 0..<n. 2 powi (- (L ! i)))" by (intro sum.cong refl) simp
  finally show "kraft_sum (take n L) = 1" using h by simp
  from inv have srt: "\<And>i j::nat. - 1 < int i \<Longrightarrow> i \<le> j \<Longrightarrow> j < n \<Longrightarrow> L ! j \<le> L ! i"
    and rng: "\<And>i::nat. - 1 < int i \<Longrightarrow> i < n \<Longrightarrow> 1 \<le> L ! i \<and> L ! i \<le> d'"
    unfolding p3_inv_def by blast+
  show "non_increasing (take n L)"
    unfolding non_increasing_def using srt nl by simp
  show "\<And>i. i < n \<Longrightarrow> 1 \<le> L ! i" using rng by simp
qed

section \<open>The calculator reads and writes only the first n cells\<close>

lemma take_root_first_take:
  "rt < n \<Longrightarrow> take_root_first n (take n A) rt leaf = take_root_first n A rt leaf"
  by (cases "leaf < n") (simp_all add: take_root_first_def)

lemma take_root_second_take:
  "rt < n \<Longrightarrow> take_root_second n (take n A) rt leaf k = take_root_second n A rt leaf k"
  by (cases "leaf < n") (simp_all add: take_root_second_def)

lemma select_first_take:
  assumes "rt < n" "k < n" and "select_first n k (A, rt, leaf) = (A', rt', leaf')"
  shows "select_first n k (take n A, rt, leaf) = (take n A', rt', leaf')"
proof (cases "take_root_first n A rt leaf")
  case True
  then show ?thesis using assms by (auto simp: take_root_first_take take_update_swap)
next
  case False
  then have "leaf < n" by (simp add: take_root_first_def)
  then show ?thesis using False assms by (auto simp: take_root_first_take take_update_swap)
qed

lemma select_second_take:
  assumes "rt < n" "k < n" and "select_second n k (A, rt, leaf) = (A', rt', leaf')"
  shows "select_second n k (take n A, rt, leaf) = (take n A', rt', leaf')"
proof (cases "take_root_second n A rt leaf k")
  case True
  then show ?thesis using assms by (auto simp: take_root_second_take take_update_swap)
next
  case False
  then have "leaf < n" by (simp add: take_root_second_def)
  then show ?thesis using False assms by (auto simp: take_root_second_take take_update_swap)
qed

lemma pass1_upto_take:
  assumes n: "2 \<le> n" "n \<le> length A"
  shows "1 \<le> k \<Longrightarrow> k < n \<Longrightarrow> pass1_upto A n k = (A', rt', leaf') \<Longrightarrow>
         pass1_upto (take n A) n k = (take n A', rt', leaf')"
proof (induction k arbitrary: A' rt' leaf')
  case 0 then show ?case by simp
next
  case (Suc k)
  show ?case
  proof (cases "k = 0")
    case True
    then show ?thesis using Suc.prems n
      by (auto simp: pass1_upto_def pass1_init_def take_update_swap)
  next
    case False
    then have k: "1 \<le> k" "k < n" "k + 1 < n" using Suc.prems by simp_all
    obtain A1 rt1 leaf1 where st: "pass1_upto A n k = (A1, rt1, leaf1)"
      by (cases "pass1_upto A n k") auto
    obtain A2 rt2 leaf2 where md: "select_first n k (A1, rt1, leaf1) = (A2, rt2, leaf2)"
      by (cases "select_first n k (A1, rt1, leaf1)") auto
    have inv: "p1_inv n k (A1, rt1, leaf1)" using pass1_upto_inv [OF n k(1,2)] st by simp
    then have r1: "rt1 < n" using k by simp
    have "p1_mid n k (A2, rt2, leaf2)" using select_first_inv [OF inv k(3)] md by simp
    then have r2: "rt2 < n" using k by simp
    have fin: "select_second n k (A2, rt2, leaf2) = (A', rt', leaf')"
      using Suc.prems(3) st md k by (simp add: pass1_upto_Suc pass1_body_def)
    have "pass1_upto (take n A) n (Suc k) = pass1_body n (pass1_upto (take n A) n k) k"
      using k by (simp add: pass1_upto_Suc)
    also have "\<dots> = pass1_body n (take n A1, rt1, leaf1) k"
      using Suc.IH [OF k(1,2) st] by simp
    also have "\<dots> = select_second n k (take n A2, rt2, leaf2)"
      unfolding pass1_body_def using select_first_take [OF r1 k(2) md] by simp
    also have "\<dots> = (take n A', rt', leaf')" using select_second_take [OF r2 k(2) fin] .
    finally show ?thesis .
  qed
qed

lemma pass2_from_take:
  assumes n: "2 \<le> n" "n \<le> length P" and ok: "ptrs_ok P (n - 2) (int n - 2)"
  shows "k \<le> n - 2 \<Longrightarrow> pass2_from (take n P) n k = take n (pass2_from P n k)"
proof (induction "n - 2 - k" arbitrary: k)
  case 0
  then have "k = n - 2" by simp
  then show ?case by (simp add: pass2_from_def take_update_swap)
next
  case (Suc m)
  then have k: "k < n - 2" and IH: "pass2_from (take n P) n (Suc k) = take n (pass2_from P n (Suc k))"
    by auto
  define S where "S = pass2_from P n (Suc k)"
  have "p2_inv P n (Suc k) S" unfolding S_def using k by (intro pass2_from_inv [OF n ok]) simp
  then have "S ! k = P ! k" "length S = length P" unfolding p2_inv_def by simp_all
  moreover have "int k < P ! k" "P ! k \<le> int n - 2" using ok k unfolding ptrs_ok_def by blast+
  ultimately have idx: "nat (S ! k) < n" "k < n" using k by linarith+
  have "pass2_body (take n S) k = take n (pass2_body S k)"
    unfolding pass2_body_def using idx by (simp add: take_update_swap)
  then show ?case using k IH by (simp add: pass2_from_step S_def)
qed

lemma scan_roots_take:
  "rt < int n \<Longrightarrow> scan_roots (take n A) d (u, rt, t) = scan_roots A d (u, rt, t)"
proof (induction A d "(u, rt, t)" arbitrary: u rt t rule: scan_roots.induct)
  case (1 A d u rt t)
  have eq: "0 \<le> rt \<Longrightarrow> take n A ! nat rt = A ! nat rt" using 1(2) by simp
  show ?case
  proof (cases "rt \<ge> 0 \<and> A ! nat rt = d")
    case True
    have "scan_roots (take n A) d (u + 1, rt - 1, t + 1) = scan_roots A d (u + 1, rt - 1, t + 1)"
      using 1(2) by (intro 1(1) [OF True]) simp
    then show ?thesis using True eq
      by (simp add: scan_roots.simps [of A d u rt t] scan_roots.simps [of "take n A" d u rt t])
  next
    case False
    then show ?thesis using eq
      by (auto simp: scan_roots.simps [of A d u rt t] scan_roots.simps [of "take n A" d u rt t])
  qed
qed

lemma store_take: "store (take n A) i v = take n (store A i v)"
  by (simp add: store_def take_update_swap)

lemma fill_leaves_take:
  "fill_leaves d u (A, nx, av, t) = (A', nx', av', t') \<Longrightarrow>
   fill_leaves d u (take n A, nx, av, t) = (take n A', nx', av', t')"
proof (induction d u "(A, nx, av, t)" arbitrary: A nx av t rule: fill_leaves.induct)
  case (1 d u A nx av t)
  show ?case
  proof (cases "av > u")
    case True
    with 1(2) have "fill_leaves d u (store A nx d, nx - 1, av - 1, t + 1) = (A', nx', av', t')"
      by (simp add: fill_leaves.simps [of d u A nx av t])
    from 1(1) [OF True this] True show ?thesis
      by (simp add: fill_leaves.simps [of d u "take n A" nx av t] store_take)
  next
    case False
    with 1(2) have "A' = A" "nx' = nx" "av' = av" "t' = t"
      by (simp_all add: fill_leaves.simps [of d u A nx av t])
    then show ?thesis using False by (simp add: fill_leaves.simps [of d u "take n A" nx av t])
  qed
qed

lemma pass3_loop_take:
  "rt < int n \<Longrightarrow>
   fst (pass3_loop (take n A, rt, nx, av, d, t)) = take n (fst (pass3_loop (A, rt, nx, av, d, t)))"
proof (induction A rt nx av d t rule: pass3_loop_induct)
  case (1 A r nx av d t)
  show ?case
  proof (cases "0 < av")
    case False
    then show ?thesis by (simp add: pass3_loop_stop)
  next
    case True
    obtain u r' t1 where sc: "scan_roots A d (0, r, t) = (u, r', t1)"
      by (cases "scan_roots A d (0, r, t)") auto
    obtain A' nx' av' t2 where fl: "fill_leaves d u (A, nx, av, t1) = (A', nx', av', t2)"
      by (cases "fill_leaves d u (A, nx, av, t1)") auto
    have sc': "scan_roots (take n A) d (0, r, t) = (u, r', t1)"
      using scan_roots_take [OF 1(2)] sc by simp
    have "r' \<le> r" using scan_roots_le [OF sc] by simp
    then have "r' < int n" using 1(2) by simp
    from 1(1) [OF True sc fl this] show ?thesis
      unfolding pass3_loop_step [OF True sc fl]
        pass3_loop_step [OF True sc' fill_leaves_take [OF fl]] .
  qed
qed

lemma calculator_take:
  assumes "n \<le> length A"
  shows "calculate_minimum_redundancy (take n A) n = take n (calculate_minimum_redundancy A n)"
proof -
  consider "n = 0" | "n = 1" | "2 \<le> n" by linarith
  then show ?thesis
  proof cases
    case 1 then show ?thesis by (simp add: calculate_minimum_redundancy_def)
  next
    case 2 then show ?thesis by (simp add: calculate_minimum_redundancy_def take_update_swap)
  next
    case 3
    from pass1_post [OF 3 assms] obtain P where P: "pass1 A n = (P, n - 2, n)"
      and lenP: "n \<le> length P" and ok: "ptrs_ok P (n - 2) (int n - 2)" by blast
    have "pass1 (take n A) n = (take n P, n - 2, n)"
      unfolding pass1_def using 3 P by (intro pass1_upto_take [OF 3 assms]) (simp_all add: pass1_def)
    moreover have "pass2 (take n P) n = take n (pass2 P n)"
      unfolding pass2_def by (intro pass2_from_take [OF 3 lenP ok]) simp
    moreover have "fst (pass3 (take n (pass2 P n)) n) = take n (fst (pass3 (pass2 P n) n))"
      unfolding pass3_def by (intro pass3_loop_take) simp
    ultimately show ?thesis using 3 P by (simp add: calculate_minimum_redundancy_def)
  qed
qed

section \<open>Reading and validating the input\<close>

lemma scan_lld_id: "fits_long_long v \<Longrightarrow> scan_lld v = v"
  by (simp add: fits_long_long_def scan_lld_def)

lemma map_scan_lld_id: "list_all fits_long_long vs \<Longrightarrow> map scan_lld vs = vs"
  by (induction vs) (simp_all add: scan_lld_id)

lemma read_freqs_spec:
  "n \<le> length A \<Longrightarrow> i \<le> n \<Longrightarrow> read_freqs A n i vs = (A', m) \<Longrightarrow>
     m = min n (i + length vs) \<and> length A' = length A \<and>
     take m A' = take i A @ map scan_lld (take (n - i) vs)"
proof (induction vs arbitrary: A i)
  case Nil
  then show ?case by (auto simp: min_def)
next
  case (Cons v vs)
  show ?case
  proof (cases "i < n")
    case True
    then have rec: "read_freqs (A[i := scan_lld v]) n (i + 1) vs = (A', m)" using Cons.prems by simp
    have "n \<le> length (A[i := scan_lld v])" "i + 1 \<le> n" using Cons.prems True by simp_all
    from Cons.IH [OF this rec]
    have m: "m = min n (i + 1 + length vs)" and len: "length A' = length A"
      and tk: "take m A' = take (i + 1) (A[i := scan_lld v]) @ map scan_lld (take (n - (i + 1)) vs)"
      by auto
    have "take (i + 1) (A[i := scan_lld v]) = take i A @ [scan_lld v]"
      using True Cons.prems(1) by (simp add: take_Suc_conv_app_nth)
    moreover have "take (n - i) (v # vs) = v # take (n - (i + 1)) vs"
      using True by (simp add: take_Cons')
    ultimately show ?thesis using m len tk by simp
  next
    case False
    then show ?thesis using Cons.prems by (auto simp: min_def)
  qed
qed

lemma read_freqs_all:
  assumes "n \<le> length A" and "read_freqs A n 0 vs = (A', m)"
  shows "m = min n (length vs)" and "length A' = length A"
    and "take m A' = map scan_lld (take n vs)"
  using read_freqs_spec [OF assms(1) _ assms(2)] by auto

lemma check_freqs_None_iff:
  "check_freqs A n i tot = None \<longleftrightarrow>
     (\<exists>j. i \<le> j \<and> j < n \<and> (A ! j < 0 \<or> (0 < j \<and> A ! (j - 1) > A ! j)))"
proof (induction A n i tot rule: check_freqs.induct)
  case (1 A n i tot)
  show ?case
  proof (cases "i < n")
    case False
    then show ?thesis by (simp add: check_freqs.simps [of A n i tot])
  next
    case True
    show ?thesis
    proof (cases "A ! i < 0 \<or> (i > 0 \<and> A ! (i - 1) > A ! i)")
      case bad: True
      then have "check_freqs A n i tot = None" using True
        by (subst check_freqs.simps) (auto simp: Let_def)
      moreover have "\<exists>j. i \<le> j \<and> j < n \<and> (A ! j < 0 \<or> (0 < j \<and> A ! (j - 1) > A ! j))"
        using bad True by blast
      ultimately show ?thesis by simp
    next
      case good: False
      have "check_freqs A n i tot = check_freqs A n (i + 1) (wrap64 (tot + A ! i))"
        using True good by (subst check_freqs.simps) (auto simp: Let_def)
      also have "\<dots> = None \<longleftrightarrow>
        (\<exists>j. i + 1 \<le> j \<and> j < n \<and> (A ! j < 0 \<or> (0 < j \<and> A ! (j - 1) > A ! j)))"
        using 1 [OF True refl good] .
      also have "\<dots> \<longleftrightarrow> (\<exists>j. i \<le> j \<and> j < n \<and> (A ! j < 0 \<or> (0 < j \<and> A ! (j - 1) > A ! j)))"
      proof
        assume "\<exists>j. i + 1 \<le> j \<and> j < n \<and> (A ! j < 0 \<or> (0 < j \<and> A ! (j - 1) > A ! j))"
        then obtain j where "i + 1 \<le> j" "j < n" "A ! j < 0 \<or> (0 < j \<and> A ! (j - 1) > A ! j)" by blast
        then have "i \<le> j \<and> j < n \<and> (A ! j < 0 \<or> (0 < j \<and> A ! (j - 1) > A ! j))" by simp
        then show "\<exists>j. i \<le> j \<and> j < n \<and> (A ! j < 0 \<or> (0 < j \<and> A ! (j - 1) > A ! j))" by blast
      next
        assume "\<exists>j. i \<le> j \<and> j < n \<and> (A ! j < 0 \<or> (0 < j \<and> A ! (j - 1) > A ! j))"
        then obtain j where j: "i \<le> j" "j < n" "A ! j < 0 \<or> (0 < j \<and> A ! (j - 1) > A ! j)" by blast
        then have "j \<noteq> i" using good by blast
        then have "i + 1 \<le> j \<and> j < n \<and> (A ! j < 0 \<or> (0 < j \<and> A ! (j - 1) > A ! j))" using j by simp
        then show "\<exists>j. i + 1 \<le> j \<and> j < n \<and> (A ! j < 0 \<or> (0 < j \<and> A ! (j - 1) > A ! j))" by blast
      qed
      finally show ?thesis .
    qed
  qed
qed

lemma valid_freqs_nth:
  "valid_freqs fs \<longleftrightarrow> \<not> (\<exists>j<length fs. fs ! j < 0 \<or> (0 < j \<and> fs ! (j - 1) > fs ! j))"
proof
  assume v: "valid_freqs fs"
  show "\<not> (\<exists>j<length fs. fs ! j < 0 \<or> (0 < j \<and> fs ! (j - 1) > fs ! j))"
  proof
    assume "\<exists>j<length fs. fs ! j < 0 \<or> (0 < j \<and> fs ! (j - 1) > fs ! j)"
    then obtain j where j: "j < length fs" "fs ! j < 0 \<or> (0 < j \<and> fs ! (j - 1) > fs ! j)" by blast
    have "0 \<le> fs ! j" using v j(1) by (simp add: valid_freqs_def list_all_length)
    moreover have "fs ! (j - 1) \<le> fs ! j" using v j(1)
      by (auto simp: valid_freqs_def intro: sorted_nth_mono)
    ultimately show False using j(2) by simp
  qed
next
  assume n: "\<not> (\<exists>j<length fs. fs ! j < 0 \<or> (0 < j \<and> fs ! (j - 1) > fs ! j))"
  have "sorted fs"
  proof (subst sorted_iff_nth_Suc, intro allI impI)
    fix i assume "Suc i < length fs"
    then show "fs ! i \<le> fs ! Suc i" using n by force
  qed
  moreover have "0 \<le> fs ! j" if "j < length fs" for j
  proof (rule ccontr)
    assume "\<not> 0 \<le> fs ! j"
    then have "j < length fs \<and> (fs ! j < 0 \<or> (0 < j \<and> fs ! (j - 1) > fs ! j))" using that by simp
    then show False using n by blast
  qed
  then have "list_all (\<lambda>f. 0 \<le> f) fs" by (simp add: list_all_length)
  ultimately show "valid_freqs fs" by (simp add: valid_freqs_def)
qed

lemma check_freqs_valid:
  assumes "n \<le> length A"
  shows "check_freqs A n 0 0 = None \<longleftrightarrow> \<not> valid_freqs (take n A)"
proof -
  have "(\<exists>j<length (take n A). take n A ! j < 0 \<or> (0 < j \<and> take n A ! (j - 1) > take n A ! j))
      \<longleftrightarrow> (\<exists>j. 0 \<le> j \<and> j < n \<and> (A ! j < 0 \<or> (0 < j \<and> A ! (j - 1) > A ! j)))"
    using assms by auto
  then show ?thesis unfolding check_freqs_None_iff valid_freqs_nth by simp
qed


lemma check_freqs_cong:
  "(\<And>j. j < n \<Longrightarrow> A ! j = A' ! j) \<Longrightarrow> check_freqs A n i tot = check_freqs A' n i tot"
proof (induction A n i tot rule: check_freqs.induct)
  case (1 A n i tot)
  show ?case
  proof (cases "i < n")
    case False
    then show ?thesis by (simp add: check_freqs.simps [of A n i tot] check_freqs.simps [of A' n i tot])
  next
    case True
    have eq: "A ! i = A' ! i" "A ! (i - 1) = A' ! (i - 1)" using 1(2) True by simp_all
    show ?thesis
    proof (cases "A ! i < 0 \<or> (i > 0 \<and> A ! (i - 1) > A ! i)")
      case bad: True
      then have "check_freqs A n i tot = None" using True
        by (subst check_freqs.simps) (auto simp: Let_def)
      moreover have "check_freqs A' n i tot = None" using True bad eq
        by (subst check_freqs.simps) (auto simp: Let_def)
      ultimately show ?thesis by simp
    next
      case good: False
      have "check_freqs A n i tot = check_freqs A n (i + 1) (wrap64 (tot + A ! i))"
        using True good by (subst check_freqs.simps) (auto simp: Let_def)
      moreover have "check_freqs A' n i tot = check_freqs A' n (i + 1) (wrap64 (tot + A ! i))"
        using True good eq by (subst check_freqs.simps) (auto simp: Let_def)
      moreover have "check_freqs A n (i + 1) (wrap64 (tot + A ! i))
          = check_freqs A' n (i + 1) (wrap64 (tot + A ! i))"
        using 1(1) [OF True refl good] 1(2) by simp
      ultimately show ?thesis by simp
    qed
  qed
qed

lemma copy_freqs_spec:
  "n \<le> length B \<Longrightarrow> length (copy_freqs A B n) = length B \<and> (\<forall>i<n. copy_freqs A B n ! i = A ! i)"
proof (induction n)
  case 0 then show ?case by (simp add: copy_freqs_def)
next
  case (Suc n)
  have step: "copy_freqs A B (Suc n) = (copy_freqs A B n)[n := A ! n]" by (simp add: copy_freqs_def)
  from Suc have IH: "length (copy_freqs A B n) = length B" "\<And>i. i < n \<Longrightarrow> copy_freqs A B n ! i = A ! i"
    by simp_all
  have "copy_freqs A B (Suc n) ! i = A ! i" if "i < Suc n" for i
    using that IH Suc.prems unfolding step by (cases "i = n") simp_all
  then show ?case using IH unfolding step by simp
qed

lemma total_bits_cong:
  "(\<And>i. i < n \<Longrightarrow> L ! i = L' ! i) \<Longrightarrow> (\<And>i. i < n \<Longrightarrow> B ! i = B' ! i) \<Longrightarrow>
   total_bits L B n = total_bits L' B' n"
proof (induction n)
  case 0 then show ?case by (simp add: total_bits_def)
next
  case (Suc n)
  have "total_bits L B n = total_bits L' B' n" using Suc by simp
  moreover have "L ! n = L' ! n" "B ! n = B' ! n" using Suc.prems by simp_all
  ultimately show ?case by (simp add: total_bits_def)
qed

lemma symbol_lines_cong:
  "(\<And>i. i < n \<Longrightarrow> L ! i = L' ! i) \<Longrightarrow> (\<And>i. i < n \<Longrightarrow> B ! i = B' ! i) \<Longrightarrow>
   symbol_lines L B n = symbol_lines L' B' n"
  by (simp add: symbol_lines_def)

lemma take_eq_nth: "take n xs = take n ys \<Longrightarrow> i < n \<Longrightarrow> xs ! i = ys ! i"
  by (metis nth_take)

lemma stored_invalid_rejected:
  assumes bad: "\<not> valid_freqs (map scan_lld (take (nat n) stream))"
    and heap: "heap = None \<or> (\<exists>A0 B0. heap = Some (A0, B0) \<and> length A0 = nat n \<and> length B0 = nat n)"
  shows "main n heap stream = (1, [Diagnostic InvalidCount]) \<or>
         main n heap stream = (1, [Diagnostic AllocationFailure]) \<or>
         main n heap stream = (1, [Diagnostic OrderingViolation])"
proof (cases "n \<le> 0 \<or> n > LIMIT")
  case True
  then show ?thesis by (simp add: main_def)
next
  case False
  show ?thesis
  proof (cases heap)
    case None
    then show ?thesis using False by (simp add: main_def)
  next
    case (Some h)
    then obtain A0 B0 where h: "heap = Some (A0, B0)" "length A0 = nat n" using heap by auto
    obtain A m where rd: "read_freqs A0 (nat n) 0 stream = (A, m)"
      by (cases "read_freqs A0 (nat n) 0 stream") auto
    have len: "nat n \<le> length A0" using h by simp
    note r = read_freqs_all [OF len rd]
    have "m \<le> length A" using r h by simp
    moreover have "take m A = map scan_lld (take (nat n) stream)" using r by simp
    ultimately have "check_freqs A m 0 0 = None" using bad by (simp add: check_freqs_valid)
    then show ?thesis using False h rd by (simp add: main_def)
  qed
qed

section \<open>The two queues of the first pass\<close>

lemma wrap64_id: "0 \<le> x \<Longrightarrow> x \<le> 2 ^ 63 - 1 \<Longrightarrow> wrap64 x = x"
  by (simp add: wrap64_def)

lemma sum_agree:
  fixes A B :: "int list"
  shows "(\<And>i. a \<le> i \<Longrightarrow> i < b \<Longrightarrow> A ! i = B ! i) \<Longrightarrow> (\<Sum>i = a..<b. A ! i) = (\<Sum>i = a..<b. B ! i)"
  by (intro sum.cong refl) simp

lemma sum_head:
  fixes f :: "nat \<Rightarrow> int"
  shows "a < b \<Longrightarrow> (\<Sum>i = a..<b. f i) = f a + (\<Sum>i = Suc a..<b. f i)"
  by (simp add: sum.atLeast_Suc_lessThan)

lemma sum_last:
  fixes f :: "nat \<Rightarrow> int"
  shows "a \<le> b \<Longrightarrow> (\<Sum>i = a..<Suc b. f i) = (\<Sum>i = a..<b. f i) + f b"
  by simp

lemma sum_lower:
  fixes f :: "nat \<Rightarrow> int"
  shows "(\<And>i. a \<le> i \<Longrightarrow> i < b \<Longrightarrow> 0 \<le> f i) \<Longrightarrow> 0 \<le> (\<Sum>i = a..<b. f i)"
  by (intro sum_nonneg) simp

lemma valid_freqs_mono: "valid_freqs fs \<Longrightarrow> i \<le> j \<Longrightarrow> j < length fs \<Longrightarrow> fs ! i \<le> fs ! j"
  by (simp add: valid_freqs_def sorted_nth_mono)

lemma valid_freqs_nonneg: "valid_freqs fs \<Longrightarrow> i < length fs \<Longrightarrow> 0 \<le> fs ! i"
  by (simp add: valid_freqs_def list_all_length)

lemma q_first:
  assumes v: "valid_freqs fs" and n: "n = length fs"
    and p: "rt < k" "rt + leaf = 2 * k" "leaf \<le> n" "k + 1 < n"
    and q: "q_inv fs n k A rt leaf"
    and sel: "select_first n k (A, rt, leaf) = (A1, rt1, leaf1)"
  shows "q_mid fs n k (A ! (k - 1)) A1 rt1 leaf1"
proof -
  from q have len: "length A = n"
    and lv: "\<And>i. leaf \<le> i \<Longrightarrow> i < n \<Longrightarrow> A ! i = fs ! i"
    and srt: "\<And>i j. rt \<le> i \<Longrightarrow> i \<le> j \<Longrightarrow> j < k \<Longrightarrow> A ! i \<le> A ! j"
    and cons: "(\<Sum>i = rt..<k. A ! i) + (\<Sum>i = leaf..<n. A ! i) = sum_list fs"
    unfolding q_inv_def by blast+
  from q obtain y where y: "0 \<le> y" "A ! (k - 1) \<le> 2 * y"
    and yq: "\<And>i. rt \<le> i \<Longrightarrow> i < k \<Longrightarrow> y \<le> A ! i"
    and yl: "\<And>i. leaf \<le> i \<Longrightarrow> i < n \<Longrightarrow> y \<le> A ! i"
    unfolding q_inv_def by blast
  have kl: "k < leaf" "k < n" "rt < n" using p by simp_all
  have top: "A ! i \<le> A ! (k - 1)" if "rt \<le> i" "i < k" for i
    using srt [of i "k - 1"] that by simp
  show ?thesis
  proof (cases "take_root_first n A rt leaf")
    case True
    then have st: "A1 = (A[k := A ! rt])[rt := int k]" "rt1 = rt + 1" "leaf1 = leaf"
      using sel by simp_all
    have ak: "A1 ! k = A ! rt" unfolding st using p len kl by simp
    have same: "A1 ! i = A ! i" if "i \<noteq> k" "i \<noteq> rt" for i unfolding st using that by simp
    have below: "A ! rt \<le> A ! i" if "leaf \<le> i" "i < n" for i
    proof -
      have "leaf < n" using that by simp
      then have "A ! rt < A ! leaf" using True by (simp add: take_root_first_def)
      moreover have "A ! leaf = fs ! leaf" "A ! i = fs ! i" using lv that \<open>leaf < n\<close> by simp_all
      moreover have "fs ! leaf \<le> fs ! i" using valid_freqs_mono [OF v] that n by simp
      ultimately show ?thesis by simp
    qed
    have s1: "(\<Sum>i = rt1..<k. A1 ! i) = (\<Sum>i = Suc rt..<k. A ! i)"
      unfolding st(2) by (simp, rule sum_agree) (simp add: same)
    have s2: "(\<Sum>i = leaf1..<n. A1 ! i) = (\<Sum>i = leaf..<n. A ! i)"
      unfolding st(3) using kl p by (intro sum_agree same) simp_all
    have s3: "(\<Sum>i = rt..<k. A ! i) = A ! rt + (\<Sum>i = Suc rt..<k. A ! i)"
      using p by (intro sum_head) simp
    have "length A1 = n" unfolding st using len by simp
    moreover have "\<forall>i. leaf1 \<le> i \<and> i < n \<longrightarrow> A1 ! i = fs ! i"
      using lv same kl p st by simp
    moreover have "\<forall>i j. rt1 \<le> i \<and> i \<le> j \<and> j < k \<longrightarrow> A1 ! i \<le> A1 ! j"
      using srt same st by simp
    moreover have "\<exists>y. 0 \<le> y \<and> A ! (k - 1) \<le> 2 * y \<and> y \<le> A1 ! k"
      using y yq [of rt] p ak by auto
    moreover have "\<forall>i. rt1 \<le> i \<and> i < k \<longrightarrow> A1 ! k \<le> A1 ! i \<and> A1 ! i \<le> A ! (k - 1)"
      using srt [of rt] top same st ak by simp
    moreover have "\<forall>i. leaf1 \<le> i \<and> i < n \<longrightarrow> A1 ! k \<le> A1 ! i"
      using below same kl p st ak by simp
    moreover have "A1 ! k + (\<Sum>i = rt1..<k. A1 ! i) + (\<Sum>i = leaf1..<n. A1 ! i) = sum_list fs"
      using cons unfolding s1 s2 s3 ak by simp
    ultimately show ?thesis unfolding q_mid_def by blast
  next
    case False
    then have lf: "leaf < n" "A ! leaf \<le> A ! rt" by (simp_all add: take_root_first_def)
    from False have st: "A1 = A[k := A ! leaf]" "rt1 = rt" "leaf1 = leaf + 1"
      using sel by simp_all
    have ak: "A1 ! k = A ! leaf" unfolding st using len kl by simp
    have same: "A1 ! i = A ! i" if "i \<noteq> k" for i unfolding st using that by simp
    have al: "A ! leaf = fs ! leaf" using lv lf by simp
    have s1: "(\<Sum>i = rt1..<k. A1 ! i) = (\<Sum>i = rt..<k. A ! i)"
      unfolding st(2) by (rule sum_agree) (simp add: same)
    have s2: "(\<Sum>i = leaf1..<n. A1 ! i) = (\<Sum>i = Suc leaf..<n. A ! i)"
      unfolding st(3) using kl by (simp, intro sum_agree same) simp
    have s3: "(\<Sum>i = leaf..<n. A ! i) = A ! leaf + (\<Sum>i = Suc leaf..<n. A ! i)"
      using lf by (intro sum_head) simp
    have "length A1 = n" unfolding st using len by simp
    moreover have "\<forall>i. leaf1 \<le> i \<and> i < n \<longrightarrow> A1 ! i = fs ! i"
      using lv same kl st by simp
    moreover have "\<forall>i j. rt1 \<le> i \<and> i \<le> j \<and> j < k \<longrightarrow> A1 ! i \<le> A1 ! j"
      using srt same st by simp
    moreover have "\<exists>y. 0 \<le> y \<and> A ! (k - 1) \<le> 2 * y \<and> y \<le> A1 ! k"
      using y yl [of leaf] lf ak by auto
    moreover have "A1 ! k \<le> A1 ! i \<and> A1 ! i \<le> A ! (k - 1)" if "rt1 \<le> i \<and> i < k" for i
    proof -
      have "A ! rt \<le> A ! i" using srt [of rt i] that st by simp
      then show ?thesis using lf top [of i] that same [of i] st ak by simp
    qed
    moreover have "A1 ! k \<le> A1 ! i" if "leaf1 \<le> i \<and> i < n" for i
    proof -
      have "fs ! leaf \<le> fs ! i" using valid_freqs_mono [OF v, of leaf i] that st n by simp
      moreover have "A1 ! i = fs ! i" using lv [of i] same [of i] that st kl by simp
      ultimately show ?thesis using ak al by simp
    qed
    moreover have "A1 ! k + (\<Sum>i = rt1..<k. A1 ! i) + (\<Sum>i = leaf1..<n. A1 ! i) = sum_list fs"
      using cons unfolding s1 s2 s3 ak by simp
    ultimately show ?thesis unfolding q_mid_def by blast
  qed
qed

lemma q_second:
  assumes v: "valid_freqs fs" and n: "n = length fs" and T: "sum_list fs \<le> 2 ^ 63 - 1"
    and p: "rt1 \<le> k" "rt1 + leaf1 = 2 * k + 1" "leaf1 \<le> n" "k + 1 < n"
    and q: "q_mid fs n k w A1 rt1 leaf1"
    and sel: "select_second n k (A1, rt1, leaf1) = (A2, rt2, leaf2)"
  shows "q_inv fs n (Suc k) A2 rt2 leaf2 \<and> w \<le> A2 ! k"
proof -
  define a where "a = A1 ! k"
  from q have len: "length A1 = n"
    and lv: "\<And>i. leaf1 \<le> i \<Longrightarrow> i < n \<Longrightarrow> A1 ! i = fs ! i"
    and srt: "\<And>i j. rt1 \<le> i \<Longrightarrow> i \<le> j \<Longrightarrow> j < k \<Longrightarrow> A1 ! i \<le> A1 ! j"
    and qa: "\<And>i. rt1 \<le> i \<Longrightarrow> i < k \<Longrightarrow> a \<le> A1 ! i"
    and qw: "\<And>i. rt1 \<le> i \<Longrightarrow> i < k \<Longrightarrow> A1 ! i \<le> w"
    and la: "\<And>i. leaf1 \<le> i \<Longrightarrow> i < n \<Longrightarrow> a \<le> A1 ! i"
    and cons: "a + (\<Sum>i = rt1..<k. A1 ! i) + (\<Sum>i = leaf1..<n. A1 ! i) = sum_list fs"
    unfolding q_mid_def a_def by blast+
  from q obtain y where y: "0 \<le> y" "w \<le> 2 * y" "y \<le> a"
    unfolding q_mid_def a_def by blast
  have a0: "0 \<le> a" using y by simp
  have kl: "k < leaf1" "k < n" using p by simp_all
  have qsum: "0 \<le> (\<Sum>i = r..<k. A1 ! i)" if "rt1 \<le> r" for r
    using qa a0 that by (intro sum_lower) (meson order_trans)
  have lsum: "0 \<le> (\<Sum>i = l..<n. A1 ! i)" if "leaf1 \<le> l" for l
    using la a0 that by (intro sum_lower) (meson order_trans)
  show ?thesis
  proof (cases "take_root_second n A1 rt1 leaf1 k")
    case True
    have rk: "rt1 < k"
    proof (cases "leaf1 \<ge> n")
      case True then show ?thesis using p by simp
    next
      case False then show ?thesis using \<open>take_root_second n A1 rt1 leaf1 k\<close>
        by (simp add: take_root_second_def)
    qed
    define b where "b = A1 ! rt1"
    have ab: "a \<le> b" "b \<le> w" unfolding b_def using qa [of rt1] qw [of rt1] rk by simp_all
    have s3: "(\<Sum>i = rt1..<k. A1 ! i) = b + (\<Sum>i = Suc rt1..<k. A1 ! i)"
      unfolding b_def using rk by (intro sum_head) simp
    have "a + b \<le> sum_list fs"
      using cons qsum [of "Suc rt1"] lsum [of leaf1] unfolding s3 by simp
    then have wr: "wrap64 (a + b) = a + b" using a0 ab T by (intro wrap64_id) simp_all
    have st: "A2 = (A1[k := a + b])[rt1 := int k]" "rt2 = rt1 + 1" "leaf2 = leaf1"
      using sel True wr unfolding a_def b_def by simp_all
    have ak: "A2 ! k = a + b" unfolding st using rk len kl by simp
    have same: "A2 ! i = A1 ! i" if "i \<noteq> k" "i \<noteq> rt1" for i unfolding st using that by simp
    have below: "b \<le> A1 ! i" if "leaf1 \<le> i" "i < n" for i
    proof -
      have "leaf1 < n" using that by simp
      then have "b < A1 ! leaf1" using True unfolding b_def by (simp add: take_root_second_def)
      moreover have "A1 ! leaf1 = fs ! leaf1" "A1 ! i = fs ! i" using lv that \<open>leaf1 < n\<close> by simp_all
      moreover have "fs ! leaf1 \<le> fs ! i" using valid_freqs_mono [OF v] that n by simp
      ultimately show ?thesis by simp
    qed
    have s1: "(\<Sum>i = rt2..<Suc k. A2 ! i) = (\<Sum>i = Suc rt1..<k. A1 ! i) + (a + b)"
    proof -
      have "(\<Sum>i = Suc rt1..<Suc k. A2 ! i) = (\<Sum>i = Suc rt1..<k. A2 ! i) + A2 ! k"
        using rk by (intro sum_last) simp
      moreover have "(\<Sum>i = Suc rt1..<k. A2 ! i) = (\<Sum>i = Suc rt1..<k. A1 ! i)"
        by (rule sum_agree) (simp add: same)
      ultimately show ?thesis unfolding st(2) using ak by simp
    qed
    have s2: "(\<Sum>i = leaf2..<n. A2 ! i) = (\<Sum>i = leaf1..<n. A1 ! i)"
      unfolding st(3) using kl rk by (intro sum_agree same) simp_all
    have "length A2 = n" unfolding st using len by simp
    moreover have "\<forall>i. leaf2 \<le> i \<and> i < n \<longrightarrow> A2 ! i = fs ! i"
      using lv same kl rk st by simp
    moreover have "A2 ! i \<le> A2 ! j" if "rt2 \<le> i \<and> i \<le> j \<and> j < Suc k" for i j
    proof (cases "j = k")
      case jk: True
      show ?thesis
      proof (cases "i = k")
        case True then show ?thesis using jk by simp
      next
        case False
        then have "A2 ! i = A1 ! i" "A1 ! i \<le> w" using same [of i] qw [of i] that st jk by simp_all
        then show ?thesis using jk ak y ab by simp
      qed
    next
      case False
      then show ?thesis using srt [of i j] same [of i] same [of j] that st by simp
    qed
    moreover have "\<exists>y. 0 \<le> y \<and> A2 ! (Suc k - 1) \<le> 2 * y \<and>
          (\<forall>i. rt2 \<le> i \<and> i < Suc k \<longrightarrow> y \<le> A2 ! i) \<and> (\<forall>i. leaf2 \<le> i \<and> i < n \<longrightarrow> y \<le> A2 ! i)"
    proof (intro exI [of _ b] conjI allI impI)
      show "0 \<le> b" using a0 ab by simp
      show "A2 ! (Suc k - 1) \<le> 2 * b" using ak ab by simp
    next
      fix i assume i: "rt2 \<le> i \<and> i < Suc k"
      show "b \<le> A2 ! i"
      proof (cases "i = k")
        case True then show ?thesis using ak a0 by simp
      next
        case False
        then have "A2 ! i = A1 ! i" using same [of i] i st by simp
        moreover have "b \<le> A1 ! i" unfolding b_def using srt [of rt1 i] i False st by simp
        ultimately show ?thesis by simp
      qed
    next
      fix i assume i: "leaf2 \<le> i \<and> i < n"
      then have "A2 ! i = A1 ! i" using same [of i] kl rk st by simp
      then show "b \<le> A2 ! i" using below [of i] i st by simp
    qed
    moreover have "(\<Sum>i = rt2..<Suc k. A2 ! i) + (\<Sum>i = leaf2..<n. A2 ! i) = sum_list fs"
      using cons unfolding s1 s2 s3 by simp
    moreover have "w \<le> A2 ! k" using ak y ab by simp
    ultimately show ?thesis unfolding q_inv_def by blast
  next
    case False
    then have lf: "leaf1 < n" and cmp: "rt1 < k \<Longrightarrow> A1 ! leaf1 \<le> A1 ! rt1"
      by (auto simp: take_root_second_def)
    define b where "b = A1 ! leaf1"
    have bl: "b = fs ! leaf1" unfolding b_def using lv lf by simp
    have ab: "a \<le> b" unfolding b_def using la [of leaf1] lf by simp
    have s3: "(\<Sum>i = leaf1..<n. A1 ! i) = b + (\<Sum>i = Suc leaf1..<n. A1 ! i)"
      unfolding b_def using lf by (intro sum_head) simp
    have "a + b \<le> sum_list fs"
      using cons qsum [of rt1] lsum [of "Suc leaf1"] unfolding s3 by simp
    then have wr: "wrap64 (a + b) = a + b" using a0 ab T by (intro wrap64_id) simp_all
    have st: "A2 = A1[k := a + b]" "rt2 = rt1" "leaf2 = leaf1 + 1"
      using sel False wr unfolding a_def b_def by simp_all
    have ak: "A2 ! k = a + b" unfolding st using len kl by simp
    have same: "A2 ! i = A1 ! i" if "i \<noteq> k" for i unfolding st using that by simp
    have s1: "(\<Sum>i = rt2..<Suc k. A2 ! i) = (\<Sum>i = rt1..<k. A1 ! i) + (a + b)"
    proof -
      have "(\<Sum>i = rt1..<Suc k. A2 ! i) = (\<Sum>i = rt1..<k. A2 ! i) + A2 ! k"
        using p by (intro sum_last) simp
      moreover have "(\<Sum>i = rt1..<k. A2 ! i) = (\<Sum>i = rt1..<k. A1 ! i)"
        by (rule sum_agree) (simp add: same)
      ultimately show ?thesis unfolding st(2) using ak by simp
    qed
    have s2: "(\<Sum>i = leaf2..<n. A2 ! i) = (\<Sum>i = Suc leaf1..<n. A1 ! i)"
      unfolding st(3) using kl by (simp, intro sum_agree same) simp
    have "length A2 = n" unfolding st using len by simp
    moreover have "\<forall>i. leaf2 \<le> i \<and> i < n \<longrightarrow> A2 ! i = fs ! i"
      using lv same kl st by simp
    moreover have "A2 ! i \<le> A2 ! j" if "rt2 \<le> i \<and> i \<le> j \<and> j < Suc k" for i j
    proof (cases "j = k")
      case jk: True
      show ?thesis
      proof (cases "i = k")
        case True then show ?thesis using jk by simp
      next
        case False
        then have "A2 ! i = A1 ! i" "A1 ! i \<le> w" using same [of i] qw [of i] that st jk by simp_all
        then show ?thesis using jk ak y ab by simp
      qed
    next
      case False
      then show ?thesis using srt [of i j] same [of i] same [of j] that st by simp
    qed
    moreover have "\<exists>y. 0 \<le> y \<and> A2 ! (Suc k - 1) \<le> 2 * y \<and>
          (\<forall>i. rt2 \<le> i \<and> i < Suc k \<longrightarrow> y \<le> A2 ! i) \<and> (\<forall>i. leaf2 \<le> i \<and> i < n \<longrightarrow> y \<le> A2 ! i)"
    proof (intro exI [of _ b] conjI allI impI)
      show "0 \<le> b" using a0 ab by simp
      show "A2 ! (Suc k - 1) \<le> 2 * b" using ak ab by simp
    next
      fix i assume i: "rt2 \<le> i \<and> i < Suc k"
      show "b \<le> A2 ! i"
      proof (cases "i = k")
        case True then show ?thesis using ak a0 by simp
      next
        case False
        then have ik: "rt1 \<le> i" "i < k" using i st by simp_all
        then have "A2 ! i = A1 ! i" using same [of i] by simp
        moreover have "A1 ! rt1 \<le> A1 ! i" using srt [of rt1 i] ik by simp
        moreover have "b \<le> A1 ! rt1" unfolding b_def using cmp ik by simp
        ultimately show ?thesis by simp
      qed
    next
      fix i assume i: "leaf2 \<le> i \<and> i < n"
      then have "A2 ! i = fs ! i" using lv [of i] same [of i] kl st by simp
      moreover have "fs ! leaf1 \<le> fs ! i" using valid_freqs_mono [OF v, of leaf1 i] i st n by simp
      ultimately show "b \<le> A2 ! i" using bl by simp
    qed
    moreover have "(\<Sum>i = rt2..<Suc k. A2 ! i) + (\<Sum>i = leaf2..<n. A2 ! i) = sum_list fs"
      using cons unfolding s1 s2 s3 by simp
    moreover have "w \<le> A2 ! k" using ak y ab by simp
    ultimately show ?thesis unfolding q_inv_def by blast
  qed
qed

lemma q_base:
  assumes v: "valid_freqs fs" and n: "n = length fs" "2 \<le> n" and T: "sum_list fs \<le> 2 ^ 63 - 1"
  shows "pass1_init fs = (fs[0 := fs ! 0 + fs ! 1], 0, 2)"
    and "q_inv fs n 1 (fs[0 := fs ! 0 + fs ! 1]) 0 2"
proof -
  have nn: "0 \<le> fs ! i" if "i < n" for i using valid_freqs_nonneg [OF v] that n by simp
  have tot: "sum_list fs = (\<Sum>i = 0..<n. fs ! i)" using n by (simp add: sum_list_sum_nth)
  have pos: "0 < n" "0 < length fs" using n by auto
  have f0: "0 \<le> fs ! 0" by (rule nn [OF pos(1)])
  have f1: "0 \<le> fs ! 1" using nn [of 1] n by simp
  have h0: "(\<Sum>i = 0..<n. fs ! i) = fs ! 0 + (\<Sum>i = Suc 0..<n. fs ! i)"
    using pos by (intro sum_head)
  have h1: "(\<Sum>i = Suc 0..<n. fs ! i) = fs ! Suc 0 + (\<Sum>i = Suc (Suc 0)..<n. fs ! i)"
    using n by (intro sum_head) simp
  have rest: "0 \<le> (\<Sum>i = Suc (Suc 0)..<n. fs ! i)" by (intro sum_lower nn)
  have le: "fs ! 0 + fs ! 1 \<le> sum_list fs" unfolding tot h0 h1 using rest by simp
  have "0 \<le> fs ! 0 + fs ! 1" using f0 f1 by simp
  then have wr: "wrap64 (fs ! 0 + fs ! 1) = fs ! 0 + fs ! 1" using le T by (intro wrap64_id) simp_all
  show "pass1_init fs = (fs[0 := fs ! 0 + fs ! 1], 0, 2)" using wr by (simp add: pass1_init_def)
  let ?A = "fs[0 := fs ! 0 + fs ! 1]"
  have a0: "?A ! 0 = fs ! 0 + fs ! 1" using pos by simp
  have same: "?A ! i = fs ! i" if "2 \<le> i" for i using that by simp
  have m01: "fs ! 0 \<le> fs ! 1" using valid_freqs_mono [OF v, of 0 1] n by simp
  have "length ?A = n" using n by simp
  moreover have "\<forall>i. 2 \<le> i \<and> i < n \<longrightarrow> ?A ! i = fs ! i" using same by simp
  moreover have "\<forall>i j. 0 \<le> i \<and> i \<le> j \<and> j < 1 \<longrightarrow> ?A ! i \<le> ?A ! j" by simp
  moreover have "\<exists>y. 0 \<le> y \<and> ?A ! (1 - 1) \<le> 2 * y \<and>
      (\<forall>i. 0 \<le> i \<and> i < 1 \<longrightarrow> y \<le> ?A ! i) \<and> (\<forall>i. 2 \<le> i \<and> i < n \<longrightarrow> y \<le> ?A ! i)"
  proof (intro exI [of _ "fs ! 1"] conjI allI impI)
    show "0 \<le> fs ! 1" by (rule f1)
    show "?A ! (1 - 1) \<le> 2 * fs ! 1" using a0 m01 by simp
  next
    fix i :: nat assume "0 \<le> i \<and> i < 1"
    then have "i = 0" by simp
    then show "fs ! 1 \<le> ?A ! i" using a0 f0 by simp
  next
    fix i assume i: "2 \<le> i \<and> i < n"
    then have "fs ! 1 \<le> fs ! i" using valid_freqs_mono [OF v, of 1 i] n by simp
    then show "fs ! 1 \<le> ?A ! i" using same i by simp
  qed
  moreover have "(\<Sum>i = 0..<1. ?A ! i) + (\<Sum>i = 2..<n. ?A ! i) = sum_list fs"
  proof -
    have "(\<Sum>i = 2..<n. ?A ! i) = (\<Sum>i = 2..<n. fs ! i)" by (rule sum_agree) (simp add: same)
    then show ?thesis unfolding tot h0 h1 using a0 by (simp add: numeral_2_eq_2)
  qed
  ultimately show "q_inv fs n 1 ?A 0 2" unfolding q_inv_def by blast
qed

lemma q_upto:
  assumes v: "valid_freqs fs" and n: "n = length fs" "2 \<le> n" and T: "sum_list fs \<le> 2 ^ 63 - 1"
  shows "1 \<le> k \<Longrightarrow> k < n \<Longrightarrow> pass1_upto fs n k = (A, rt, leaf) \<Longrightarrow> q_inv fs n k A rt leaf"
proof (induction k arbitrary: A rt leaf)
  case 0 then show ?case by simp
next
  case (Suc k)
  show ?case
  proof (cases "k = 0")
    case True
    then have "pass1_upto fs n (Suc k) = pass1_init fs" by (simp add: pass1_upto_def)
    then show ?thesis using q_base [OF v n T] Suc.prems True by simp
  next
    case False
    then have k: "1 \<le> k" "k < n" "k + 1 < n" using Suc.prems by simp_all
    obtain A0 rt0 leaf0 where st: "pass1_upto fs n k = (A0, rt0, leaf0)"
      by (cases "pass1_upto fs n k") auto
    obtain A1 rt1 leaf1 where md: "select_first n k (A0, rt0, leaf0) = (A1, rt1, leaf1)"
      by (cases "select_first n k (A0, rt0, leaf0)") auto
    have len: "n \<le> length fs" using n by simp
    have inv: "p1_inv n k (A0, rt0, leaf0)" using pass1_upto_inv [OF n(2) len k(1,2)] st by simp
    then have p0: "rt0 < k" "rt0 + leaf0 = 2 * k" "leaf0 \<le> n" by simp_all
    have "p1_mid n k (A1, rt1, leaf1)" using select_first_inv [OF inv k(3)] md by simp
    then have p1: "rt1 \<le> k" "rt1 + leaf1 = 2 * k + 1" "leaf1 \<le> n" by simp_all
    have fin: "select_second n k (A1, rt1, leaf1) = (A, rt, leaf)"
      using Suc.prems(3) st md k by (simp add: pass1_upto_Suc pass1_body_def)
    have q0: "q_inv fs n k A0 rt0 leaf0" using Suc.IH [OF k(1,2) st] .
    have q1: "q_mid fs n k (A0 ! (k - 1)) A1 rt1 leaf1"
      using q_first [OF v n(1) p0 k(3) q0 md] .
    from q_second [OF v n(1) T p1 k(3) q1 fin] show ?thesis by simp
  qed
qed

lemma weights_step:
  assumes v: "valid_freqs fs" and n: "n = length fs" "2 \<le> n" and T: "sum_list fs \<le> 2 ^ 63 - 1"
    and k: "1 \<le> k" "k + 1 < n"
  shows "combined_weight fs n (k - 1) \<le> combined_weight fs n k"
proof -
  have kn: "k < n" using k by simp
  obtain A0 rt0 leaf0 where st: "pass1_upto fs n k = (A0, rt0, leaf0)"
    by (cases "pass1_upto fs n k") auto
  obtain A1 rt1 leaf1 where md: "select_first n k (A0, rt0, leaf0) = (A1, rt1, leaf1)"
    by (cases "select_first n k (A0, rt0, leaf0)") auto
  obtain A2 rt2 leaf2 where fin: "select_second n k (A1, rt1, leaf1) = (A2, rt2, leaf2)"
    by (cases "select_second n k (A1, rt1, leaf1)") auto
  have nxt: "pass1_upto fs n (Suc k) = (A2, rt2, leaf2)"
    using st md fin k by (simp add: pass1_upto_Suc pass1_body_def)
  have len: "n \<le> length fs" using n by simp
  have inv: "p1_inv n k (A0, rt0, leaf0)" using pass1_upto_inv [OF n(2) len k(1) kn] st by simp
  then have p0: "rt0 < k" "rt0 + leaf0 = 2 * k" "leaf0 \<le> n" by simp_all
  have "p1_mid n k (A1, rt1, leaf1)" using select_first_inv [OF inv k(2)] md by simp
  then have p1: "rt1 \<le> k" "rt1 + leaf1 = 2 * k + 1" "leaf1 \<le> n" by simp_all
  have q0: "q_inv fs n k A0 rt0 leaf0" using q_upto [OF v n T k(1) kn st] .
  have q1: "q_mid fs n k (A0 ! (k - 1)) A1 rt1 leaf1"
    using q_first [OF v n(1) p0 k(2) q0 md] .
  from q_second [OF v n(1) T p1 k(2) q1 fin] have "A0 ! (k - 1) \<le> A2 ! k" by simp
  then show ?thesis unfolding combined_weight_def using st nxt k by simp
qed


section \<open>The calculator as a whole\<close>

lemma pass1_body_length: "length (fst (pass1_body n st k)) = length (fst st)"
  by (cases st) (simp add: pass1_body_def)

lemma pass1_upto_length: "length (fst (pass1_upto A n k)) = length A"
proof (induction k)
  case 0 then show ?case by (simp add: pass1_upto_def pass1_init_def)
next
  case (Suc k)
  show ?case
  proof (cases "1 \<le> k")
    case True
    then show ?thesis using Suc by (simp add: pass1_upto_Suc pass1_body_length)
  next
    case False
    then show ?thesis by (simp add: pass1_upto_def pass1_init_def)
  qed
qed

lemma calculator_props:
  assumes n2: "2 \<le> n" and len: "n \<le> length A"
  defines "L \<equiv> calculate_minimum_redundancy A n"
  shows "length L = length A" and "kraft_sum (take n L) = 1" and "non_increasing (take n L)"
    and "\<And>i. i < n \<Longrightarrow> 1 \<le> L ! i"
proof -
  from pass1_post [OF n2 len] obtain P where P: "pass1 A n = (P, n - 2, n)"
    and lenP: "n \<le> length P" and ok: "ptrs_ok P (n - 2) (int n - 2)" by blast
  define D where "D = pass2 P n"
  have lenD: "length D = length P" and dk: "depths_ok P D n"
    unfolding D_def using pass2_post [OF n2 lenP ok] by blast+
  have L: "L = fst (pass3 D n)"
    unfolding L_def D_def calculate_minimum_redundancy_def using n2 P by simp
  have nD: "n \<le> length D" using lenD lenP by simp
  have "length P = length A" using pass1_upto_length [of A n "n - 1"] P by (simp add: pass1_def)
  then show "length L = length A" unfolding L using pass3_result(1) [OF ok dk n2 nD] lenD by simp
  show "kraft_sum (take n L) = 1" unfolding L by (rule pass3_result(3) [OF ok dk n2 nD])
  show "non_increasing (take n L)" unfolding L by (rule pass3_result(4) [OF ok dk n2 nD])
  show "\<And>i. i < n \<Longrightarrow> 1 \<le> L ! i" unfolding L by (rule pass3_result(5) [OF ok dk n2 nD])
qed

lemma compute_lengths_length: "2 \<le> length fs \<Longrightarrow> length (compute_lengths fs) = length fs"
  unfolding compute_lengths_def by (rule calculator_props(1)) simp_all

lemma pass3_iterations: "2 \<le> n \<Longrightarrow> snd (pass3 D n) < 3 * n"
proof -
  assume "2 \<le> n"
  then have "int (snd (pass3 D n)) \<le> int 0 + (if 0 < (1::int) then 3 * (int n - 2 + 1) + 1 + 1 else 0)"
    unfolding pass3_def by (intro pass3_loop_ticks) simp_all
  then show ?thesis by simp
qed

section \<open>Scenarios of the specification\<close>

lemma scenario_two_symbols: "compute_lengths [5, 7] = [1, 1]"
  by code_simp

lemma scenario_four_equal: "compute_lengths [1, 1, 1, 1] = [2, 2, 2, 2]"
  by code_simp

lemma scenario_three_symbols: "compute_lengths [1, 2, 3] = [2, 2, 1]"
  by code_simp

section \<open>The claims\<close>

subsection \<open>C1\<close>

text \<open>
  C1. For every non-decreasing sequence of at least two non-negative frequencies the
  lengths returned by the calculator satisfy Kraft's equality: the sum of \<open>2^(-length)\<close>
  over all symbols is exactly 1.
\<close>

theorem kraft_equality:
  "valid_freqs fs \<Longrightarrow> 2 \<le> length fs \<Longrightarrow> kraft_sum (compute_lengths fs) = 1"
proof -
  assume "2 \<le> length fs"
  then have "kraft_sum (take (length fs) (calculate_minimum_redundancy fs (length fs))) = 1"
    by (intro calculator_props(2)) simp_all
  moreover have "length (calculate_minimum_redundancy fs (length fs)) = length fs"
    using \<open>2 \<le> length fs\<close> by (intro calculator_props(1)) simp_all
  ultimately show ?thesis by (simp add: compute_lengths_def)
qed

theorem kraft_equality_witness:
  "valid_freqs [1, 2, 3] \<and> kraft_sum (compute_lengths [1, 2, 3]) = 1"
  using kraft_equality [of "[1, 2, 3]"] by (simp add: valid_freqs_def)

subsection \<open>C2\<close>

text \<open>
  C2. For every non-decreasing sequence of at least two non-negative frequencies the
  returned lengths are non-increasing in position: for positions \<open>i \<le> j\<close> the length at
  \<open>i\<close> is at least the length at \<open>j\<close>.
\<close>

theorem lengths_non_increasing:
  "valid_freqs fs \<Longrightarrow> 2 \<le> length fs \<Longrightarrow> i \<le> j \<Longrightarrow> j < length fs \<Longrightarrow>
     compute_lengths fs ! j \<le> compute_lengths fs ! i"
proof -
  assume n2: "2 \<le> length fs" and ij: "i \<le> j" "j < length fs"
  have "non_increasing (take (length fs) (calculate_minimum_redundancy fs (length fs)))"
    using n2 by (intro calculator_props(3)) simp_all
  moreover have "length (calculate_minimum_redundancy fs (length fs)) = length fs"
    using n2 by (intro calculator_props(1)) simp_all
  ultimately have "non_increasing (compute_lengths fs)" "length (compute_lengths fs) = length fs"
    by (simp_all add: compute_lengths_def)
  then show ?thesis using ij unfolding non_increasing_def by simp
qed

theorem lengths_non_increasing_witness:
  "valid_freqs [1, 2, 3] \<and> compute_lengths [1, 2, 3] ! 2 \<le> compute_lengths [1, 2, 3] ! 0"
  using lengths_non_increasing [of "[1, 2, 3]" 0 2] by (simp add: valid_freqs_def)

subsection \<open>C3\<close>

text \<open>
  C3. In every iteration of the first pass, each of the two selection steps does what
  the tie-break rule names for the current candidates. When the rule names the root
  (its value is strictly less than the leaf's, or the leaf queue is exhausted, that is
  \<open>leaf = n\<close>), the step takes the value \<open>A[root]\<close> into \<open>A[next]\<close>, stores the parent
  pointer \<open>next\<close> in the root's slot and advances \<open>root\<close>. When the rule names the leaf
  (its value is less or equal, or the internal queue is exhausted, that is
  \<open>root = next\<close>), the step takes the value \<open>A[leaf]\<close> into \<open>A[next]\<close> and advances
  \<open>leaf\<close>. The first step stores the value taken, the second adds it to the first. One
  of the two candidates always exists.
\<close>

theorem tie_break_rule:
  assumes "2 \<le> n" and "n \<le> length A" and "1 \<le> k" and "k + 1 < n"
    and "pass1_upto A n k = (A1, rt1, leaf1)"
    and "select_first n k (A1, rt1, leaf1) = (A2, rt2, leaf2)"
    and "select_second n k (A2, rt2, leaf2) = (A3, rt3, leaf3)"
  shows "(tie_break (root_candidate k A1 rt1) (leaf_candidate n A1 leaf1) = Some PickRoot \<and>
            (A2, rt2, leaf2) = ((A1[k := A1 ! rt1])[rt1 := int k], rt1 + 1, leaf1) \<and>
            A2 ! k = A1 ! rt1 \<and> A2 ! rt1 = int k
          \<or> tie_break (root_candidate k A1 rt1) (leaf_candidate n A1 leaf1) = Some PickLeaf \<and>
            (A2, rt2, leaf2) = (A1[k := A1 ! leaf1], rt1, leaf1 + 1) \<and>
            A2 ! k = A1 ! leaf1) \<and>
         (tie_break (root_candidate k A2 rt2) (leaf_candidate n A2 leaf2) = Some PickRoot \<and>
            (A3, rt3, leaf3) = ((A2[k := wrap64 (A2 ! k + A2 ! rt2)])[rt2 := int k], rt2 + 1, leaf2) \<and>
            A3 ! k = wrap64 (A2 ! k + A2 ! rt2) \<and> A3 ! rt2 = int k
          \<or> tie_break (root_candidate k A2 rt2) (leaf_candidate n A2 leaf2) = Some PickLeaf \<and>
            (A3, rt3, leaf3) = (A2[k := wrap64 (A2 ! k + A2 ! leaf2)], rt2, leaf2 + 1) \<and>
            A3 ! k = wrap64 (A2 ! k + A2 ! leaf2)) \<and>
         pass1_upto A n (Suc k) = (A3, rt3, leaf3)"
proof -
  have inv: "p1_inv n k (A1, rt1, leaf1)"
    using pass1_upto_inv [OF assms(1,2), of k] assms(3,4,5) by simp
  then have a: "rt1 < k" "leaf1 \<le> n" "n \<le> length A1" by simp_all
  have "p1_mid n k (A2, rt2, leaf2)"
    using select_first_inv [OF inv assms(4)] assms(6) by simp
  then have b: "rt2 \<le> k" "rt2 + leaf2 = 2 * k + 1" "leaf2 \<le> n" "n \<le> length A2" by simp_all
  have kl: "k < length A1" "rt1 < length A1" "rt1 \<noteq> k" "k < length A2" "rt2 < length A2"
    using a b assms(4) by simp_all
  have first:
    "tie_break (root_candidate k A1 rt1) (leaf_candidate n A1 leaf1) = Some PickRoot \<and>
       (A2, rt2, leaf2) = ((A1[k := A1 ! rt1])[rt1 := int k], rt1 + 1, leaf1) \<and>
       A2 ! k = A1 ! rt1 \<and> A2 ! rt1 = int k
     \<or> tie_break (root_candidate k A1 rt1) (leaf_candidate n A1 leaf1) = Some PickLeaf \<and>
       (A2, rt2, leaf2) = (A1[k := A1 ! leaf1], rt1, leaf1 + 1) \<and>
       A2 ! k = A1 ! leaf1"
  proof (cases "take_root_first n A1 rt1 leaf1")
    case True
    then have "tie_break (root_candidate k A1 rt1) (leaf_candidate n A1 leaf1) = Some PickRoot"
      using a by (cases "leaf1 < n") (simp_all add: root_candidate_def leaf_candidate_def take_root_first_def)
    moreover have "(A2, rt2, leaf2) = ((A1[k := A1 ! rt1])[rt1 := int k], rt1 + 1, leaf1)"
      using True assms(6) by simp
    moreover from this have "A2 ! k = A1 ! rt1" "A2 ! rt1 = int k" using kl by simp_all
    ultimately show ?thesis by blast
  next
    case False
    then have "tie_break (root_candidate k A1 rt1) (leaf_candidate n A1 leaf1) = Some PickLeaf"
      using a by (cases "leaf1 < n") (simp_all add: root_candidate_def leaf_candidate_def take_root_first_def)
    moreover have "(A2, rt2, leaf2) = (A1[k := A1 ! leaf1], rt1, leaf1 + 1)"
      using False assms(6) by simp
    moreover from this have "A2 ! k = A1 ! leaf1" using kl by simp
    ultimately show ?thesis by blast
  qed
  have second:
    "tie_break (root_candidate k A2 rt2) (leaf_candidate n A2 leaf2) = Some PickRoot \<and>
       (A3, rt3, leaf3) = ((A2[k := wrap64 (A2 ! k + A2 ! rt2)])[rt2 := int k], rt2 + 1, leaf2) \<and>
       A3 ! k = wrap64 (A2 ! k + A2 ! rt2) \<and> A3 ! rt2 = int k
     \<or> tie_break (root_candidate k A2 rt2) (leaf_candidate n A2 leaf2) = Some PickLeaf \<and>
       (A3, rt3, leaf3) = (A2[k := wrap64 (A2 ! k + A2 ! leaf2)], rt2, leaf2 + 1) \<and>
       A3 ! k = wrap64 (A2 ! k + A2 ! leaf2)"
  proof (cases "take_root_second n A2 rt2 leaf2 k")
    case True
    have rk: "rt2 < k"
    proof (cases "leaf2 < n")
      case True
      then show ?thesis using \<open>take_root_second n A2 rt2 leaf2 k\<close> by (simp add: take_root_second_def)
    next
      case False
      then show ?thesis using b assms(4) by simp
    qed
    have "tie_break (root_candidate k A2 rt2) (leaf_candidate n A2 leaf2) = Some PickRoot"
      using True rk by (cases "leaf2 < n") (simp_all add: root_candidate_def leaf_candidate_def take_root_second_def)
    moreover have "(A3, rt3, leaf3) = ((A2[k := wrap64 (A2 ! k + A2 ! rt2)])[rt2 := int k], rt2 + 1, leaf2)"
      using True assms(7) by simp
    moreover from this have "A3 ! k = wrap64 (A2 ! k + A2 ! rt2)" "A3 ! rt2 = int k"
      using kl rk by simp_all
    ultimately show ?thesis by blast
  next
    case False
    then have lf: "leaf2 < n" by (simp add: take_root_second_def)
    have "tie_break (root_candidate k A2 rt2) (leaf_candidate n A2 leaf2) = Some PickLeaf"
      using False lf by (cases "rt2 < k") (simp_all add: root_candidate_def leaf_candidate_def take_root_second_def)
    moreover have "(A3, rt3, leaf3) = (A2[k := wrap64 (A2 ! k + A2 ! leaf2)], rt2, leaf2 + 1)"
      using False assms(7) by simp
    moreover from this have "A3 ! k = wrap64 (A2 ! k + A2 ! leaf2)" using kl by simp
    ultimately show ?thesis by blast
  qed
  have "pass1_upto A n (Suc k) = (A3, rt3, leaf3)"
    using assms(3,5,6,7) by (simp add: pass1_upto_Suc pass1_body_def)
  with first second show ?thesis by blast
qed

theorem tie_break_rule_witness:
  "tie_break (root_candidate 1 [2, 1, 2, 2] 0) (leaf_candidate 4 [2, 1, 2, 2] 2) = Some PickLeaf \<and>
   select_first 4 1 ([2, 1, 2, 2], 0, 2) = ([2, 2, 2, 2], 0, 3) \<and>
   tie_break (root_candidate 1 [2, 2, 2, 2] 0) (leaf_candidate 4 [2, 2, 2, 2] 3) = Some PickLeaf \<and>
   select_second 4 1 ([2, 2, 2, 2], 0, 3) = ([2, 4, 2, 2], 0, 4) \<and>
   pass1_upto [1, 1, 2, 2] 4 (Suc 1) = ([2, 4, 2, 2], 0, 4) \<and>
   tie_break (root_candidate 1 [2, 1, 5, 5] 0) (leaf_candidate 4 [2, 1, 5, 5] 2) = Some PickRoot \<and>
   select_first 4 1 ([2, 1, 5, 5], 0, 2) = ([1, 2, 5, 5], 1, 2) \<and>
   tie_break (root_candidate 1 [1, 2, 5, 5] 1) (leaf_candidate 4 [1, 2, 5, 5] 2) = Some PickLeaf \<and>
   select_second 4 1 ([1, 2, 5, 5], 1, 2) = ([1, 7, 5, 5], 1, 3) \<and>
   pass1_upto [1, 1, 5, 5] 4 (Suc 1) = ([1, 7, 5, 5], 1, 3)"
proof -
  have u: "pass1_upto [1, 1, 2, 2] 4 1 = ([2, 1, 2, 2], 0, 2)"
    by (simp add: pass1_upto_def pass1_init_def wrap64_def)
  have s: "select_first 4 1 ([2, 1, 2, 2], 0, 2) = ([2, 2, 2, 2], 0, 3)"
    by (simp add: take_root_first_def)
  have f: "select_second 4 1 ([2, 2, 2, 2], 0, 3) = ([2, 4, 2, 2], 0, 4)"
    by (simp add: take_root_second_def wrap64_def)
  have t: "tie_break (root_candidate 1 [2, 1, 2, 2] 0) (leaf_candidate 4 [2, 1, 2, 2] 2) = Some PickLeaf"
    "tie_break (root_candidate 1 [2, 2, 2, 2] 0) (leaf_candidate 4 [2, 2, 2, 2] 3) = Some PickLeaf"
    by (simp_all add: root_candidate_def leaf_candidate_def)
  have u': "pass1_upto [1, 1, 5, 5] 4 1 = ([2, 1, 5, 5], 0, 2)"
    by (simp add: pass1_upto_def pass1_init_def wrap64_def)
  have s': "select_first 4 1 ([2, 1, 5, 5], 0, 2) = ([1, 2, 5, 5], 1, 2)"
    by (simp add: take_root_first_def)
  have f': "select_second 4 1 ([1, 2, 5, 5], 1, 2) = ([1, 7, 5, 5], 1, 3)"
    by (simp add: take_root_second_def wrap64_def)
  have t': "tie_break (root_candidate 1 [2, 1, 5, 5] 0) (leaf_candidate 4 [2, 1, 5, 5] 2) = Some PickRoot"
    "tie_break (root_candidate 1 [1, 2, 5, 5] 1) (leaf_candidate 4 [1, 2, 5, 5] 2) = Some PickLeaf"
    by (simp_all add: root_candidate_def leaf_candidate_def)
  have "pass1_upto [1, 1, 2, 2] 4 (Suc 1) = ([2, 4, 2, 2], 0, 4)"
    using tie_break_rule [of 4 "[1, 1, 2, 2]" 1, OF _ _ _ _ u s f] by simp
  moreover have "pass1_upto [1, 1, 5, 5] 4 (Suc 1) = ([1, 7, 5, 5], 1, 3)"
    using tie_break_rule [of 4 "[1, 1, 5, 5]" 1, OF _ _ _ _ u' s' f'] by simp
  ultimately show ?thesis using s f t s' f' t' by simp
qed

subsection \<open>C4\<close>

text \<open>
  C4. After the first pass on a valid input of \<open>n \<ge> 2\<close> frequencies, every slot
  \<open>i \<le> n - 3\<close> holds a parent pointer greater than \<open>i\<close> and at most \<open>n - 2\<close>. On entry
  to the iteration \<open>next = k\<close> of the second pass (the array then is
  \<open>pass2_from P n (Suc k)\<close>), slot \<open>k\<close> still holds that pointer, so the index
  \<open>A[next]\<close> read through lies in \<open>k + 1 .. n - 2\<close>: inside the array, and at a slot
  whose depth the scan has already set.
\<close>

theorem parent_pointers_point_right:
  assumes "valid_freqs fs" and "2 \<le> length fs" and "n = length fs" and "P = fst (pass1 fs n)"
  shows "(\<forall>i<n - 2. int i < P ! i \<and> P ! i \<le> int n - 2) \<and>
         (\<forall>k<n - 2. k < nat (pass2_from P n (Suc k) ! k) \<and> nat (pass2_from P n (Suc k) ! k) \<le> n - 2
                     \<and> nat (pass2_from P n (Suc k) ! k) < length (pass2_from P n (Suc k)))"
proof -
  have n2: "2 \<le> n" and len: "n \<le> length fs" using assms by simp_all
  from pass1_post [OF n2 len] obtain P' where "pass1 fs n = (P', n - 2, n)"
    and "n \<le> length P'" and "ptrs_ok P' (n - 2) (int n - 2)" by blast
  then have lenP: "n \<le> length P" and ok: "ptrs_ok P (n - 2) (int n - 2)"
    using assms(4) by simp_all
  have ptr: "int i < P ! i \<and> P ! i \<le> int n - 2" if "i < n - 2" for i
    using ok that unfolding ptrs_ok_def by blast
  have "k < nat (pass2_from P n (Suc k) ! k) \<and> nat (pass2_from P n (Suc k) ! k) \<le> n - 2
        \<and> nat (pass2_from P n (Suc k) ! k) < length (pass2_from P n (Suc k))" if "k < n - 2" for k
  proof -
    have "p2_inv P n (Suc k) (pass2_from P n (Suc k))"
      using that by (intro pass2_from_inv [OF n2 lenP ok]) simp
    then have "pass2_from P n (Suc k) ! k = P ! k" "length (pass2_from P n (Suc k)) = length P"
      unfolding p2_inv_def by simp_all
    moreover have "int k < P ! k" "P ! k \<le> int n - 2" using ptr [OF that] by simp_all
    ultimately show ?thesis using lenP n2 by simp linarith
  qed
  then show ?thesis using ptr by simp
qed

theorem parent_pointers_point_right_witness:
  "valid_freqs [1, 1, 1, 1] \<and>
   int 1 < fst (pass1 [1, 1, 1, 1] 4) ! 1 \<and> fst (pass1 [1, 1, 1, 1] 4) ! 1 \<le> 2 \<and>
   0 < nat (pass2_from (fst (pass1 [1, 1, 1, 1] 4)) 4 (Suc 0) ! 0) \<and>
   nat (pass2_from (fst (pass1 [1, 1, 1, 1] 4)) 4 (Suc 0) ! 0) \<le> 2"
proof -
  have v: "valid_freqs [1, 1, 1, 1]" by (simp add: valid_freqs_def)
  have l: "2 \<le> length [1, 1, 1, 1::int]" "4 = length [1, 1, 1, 1::int]" by simp_all
  note t = parent_pointers_point_right [OF v l refl]
  from t have a: "\<And>i. i < 2 \<Longrightarrow> int i < fst (pass1 [1, 1, 1, 1] 4) ! i \<and> fst (pass1 [1, 1, 1, 1] 4) ! i \<le> 2"
    by simp
  from t have b: "\<And>k. k < 2 \<Longrightarrow> k < nat (pass2_from (fst (pass1 [1, 1, 1, 1] 4)) 4 (Suc k) ! k)
      \<and> nat (pass2_from (fst (pass1 [1, 1, 1, 1] 4)) 4 (Suc k) ! k) \<le> 2"
    by simp
  from a [of 1] b [of 0] v show ?thesis by simp
qed

subsection \<open>C5\<close>

text \<open>
  C5. The calculator terminates on every input: its for loops run over fixed index
  ranges, and each while loop of the third pass is a total function whose termination
  is proved where it is defined. The number of loop bodies executed is linear in \<open>n\<close>:
  at most \<open>5 * n\<close> in all, and fewer than \<open>3 * n\<close> in the while loops of the third pass
  (outer and inner loops together). No property of the frequencies is needed.
\<close>

theorem loop_iterations_linear:
  "loop_iterations A n \<le> 5 * n \<and>
   (2 \<le> n \<longrightarrow> snd (pass3 (pass2 (fst (pass1 A n)) n) n) < 3 * n)"
proof (cases "n < 2")
  case True then show ?thesis by (simp add: loop_iterations_def)
next
  case False
  then have "snd (pass3 (pass2 (fst (pass1 A n)) n) n) < 3 * n" by (intro pass3_iterations) simp
  then show ?thesis using False by (simp add: loop_iterations_def)
qed

theorem loop_iterations_linear_witness:
  "loop_iterations [1, 1, 2, 3, 5, 8, 13, 21] 8 \<le> 40 \<and>
   snd (pass3 (pass2 (fst (pass1 [1, 1, 2, 3, 5, 8, 13, 21] 8)) 8) 8) < 24"
  using loop_iterations_linear [of "[1, 1, 2, 3, 5, 8, 13, 21]" 8] by simp

lemma loop_iterations_example: "loop_iterations [1, 1, 2, 3, 5, 8, 13, 21] 8 = 35"
  by code_simp

subsection \<open>C6\<close>

text \<open>
  C6. On an empty input (\<open>n = 0\<close>) the calculator leaves the buffer untouched, so it
  returns the empty sequence; on a single symbol (\<open>n = 1\<close>) it returns \<open>[0]\<close>.
\<close>

theorem pathological_cases:
  "calculate_minimum_redundancy A 0 = A \<and> compute_lengths [] = [] \<and> compute_lengths [f] = [0]"
  by (simp add: compute_lengths_def calculate_minimum_redundancy_def)

subsection \<open>C7\<close>

text \<open>
  C7, as amended. When every frequency value the program reads fits in a
  \<open>long long\<close>, and one of them is negative or a later one is smaller than an earlier
  one, the run ends with exit status 1 and its whole trace is one diagnostic: nothing is
  printed and the calculator is not called. (The diagnostic is that of the count or of
  the allocation when the program stops there first.)
\<close>

theorem invalid_frequencies_rejected:
  assumes range: "list_all fits_long_long (take (nat n) stream)"
    and bad: "\<not> valid_freqs (take (nat n) stream)"
    and heap: "heap = None \<or> (\<exists>A0 B0. heap = Some (A0, B0) \<and> length A0 = nat n \<and> length B0 = nat n)"
  shows "main n heap stream = (1, [Diagnostic InvalidCount]) \<or>
         main n heap stream = (1, [Diagnostic AllocationFailure]) \<or>
         main n heap stream = (1, [Diagnostic OrderingViolation])"
proof -
  have "map scan_lld (take (nat n) stream) = take (nat n) stream"
    using range by (rule map_scan_lld_id)
  then have "\<not> valid_freqs (map scan_lld (take (nat n) stream))" using bad by simp
  then show ?thesis using heap by (rule stored_invalid_rejected)
qed

theorem invalid_frequencies_rejected_witness:
  "list_all fits_long_long (take (nat 3) [3, 2, 3]) \<and> \<not> valid_freqs (take (nat 3) [3, 2, 3]) \<and>
   main 3 (Some ([0, 0, 0], [0, 0, 0])) [3, 2, 3] = (1, [Diagnostic OrderingViolation])"
proof -
  have r: "list_all fits_long_long (take (nat 3) [3, 2, 3])" by (simp add: fits_long_long_def)
  have b: "\<not> valid_freqs (take (nat 3) [3, 2, 3])" by (simp add: valid_freqs_def)
  have "main 3 (Some ([0, 0, 0], [0, 0, 0])) [3, 2, 3] \<noteq> (1, [Diagnostic InvalidCount])"
    "main 3 (Some ([0, 0, 0], [0, 0, 0])) [3, 2, 3] \<noteq> (1, [Diagnostic AllocationFailure])"
    by code_simp+
  with invalid_frequencies_rejected [OF r b, of "Some ([0, 0, 0], [0, 0, 0])"] r b
  show ?thesis by simp
qed

text \<open>
  C7 as stated covers every stream of integers. A value outside the range of a
  \<open>long long\<close> is stored as the nearest end of the range, so a stream that decreases only
  among such values is read as a constant one: \<open>2^64, 2^63, 2^63 - 1\<close> is stored as three
  times \<open>2^63 - 1\<close>, the validation passes, the calculator is called and the report is
  printed with exit status 0.
\<close>

theorem invalid_frequencies_counterexample:
  "\<not> valid_freqs (take (nat 3) [18446744073709551616, 9223372036854775808, 9223372036854775807]) \<and>
   fst (main 3 (Some ([0, 0, 0], [0, 0, 0]))
          [18446744073709551616, 9223372036854775808, 9223372036854775807]) = 0 \<and>
   hd (snd (main 3 (Some ([0, 0, 0], [0, 0, 0]))
          [18446744073709551616, 9223372036854775808, 9223372036854775807]))
     = Calculator_call [9223372036854775807, 9223372036854775807, 9223372036854775807]"
  by code_simp

subsection \<open>C8\<close>

text \<open>
  C8, as amended. When the declared count \<open>n\<close> is accepted and the input ends after
  \<open>k\<close> values with \<open>1 \<le> k < n\<close>, the run is the run of the same values under a declared
  count of \<open>k\<close>, whatever the buffers held: same exit status, same diagnostic or same
  calculator call and report.
\<close>

theorem early_end_of_input:
  assumes k: "length stream = k" "1 \<le> k" "k < nat n" and lim: "n \<le> LIMIT"
    and h0: "length A0 = nat n" "length B0 = nat n" and h1: "length A1 = k" "length B1 = k"
  shows "main n (Some (A0, B0)) stream = main (int k) (Some (A1, B1)) stream"
proof -
  have cnt: "\<not> (n \<le> 0 \<or> n > LIMIT)" "\<not> (int k \<le> 0 \<or> int k > LIMIT)" using k lim by linarith+
  obtain A m where rd: "read_freqs A0 (nat n) 0 stream = (A, m)"
    by (cases "read_freqs A0 (nat n) 0 stream") auto
  obtain A' m' where rd': "read_freqs A1 k 0 stream = (A', m')"
    by (cases "read_freqs A1 k 0 stream") auto
  have "nat n \<le> length A0" "k \<le> length A1" using h0 h1 by simp_all
  note r = read_freqs_all [OF this(1) rd] and r' = read_freqs_all [OF this(2) rd']
  have m: "m = k" "m' = k" using r(1) r'(1) k by simp_all
  have lenA: "k \<le> length A" "k \<le> length A'" using r(2) r'(2) h0 h1 k by simp_all
  have tk: "take k A = take k A'" using r(3) r'(3) m k by simp
  have nthA: "A ! j = A' ! j" if "j < k" for j using take_eq_nth [OF tk that] .
  have chk: "check_freqs A k 0 0 = check_freqs A' k 0 0" by (rule check_freqs_cong) (rule nthA)
  define B where "B = copy_freqs A B0 k"
  define B' where "B' = copy_freqs A' B1 k"
  define L where "L = calculate_minimum_redundancy A k"
  define L' where "L' = calculate_minimum_redundancy A' k"
  have cB: "length B = length B0" "\<And>i. i < k \<Longrightarrow> B ! i = A ! i"
    unfolding B_def using copy_freqs_spec [of k B0 A] h0 k by simp_all
  have cB': "length B' = length B1" "\<And>i. i < k \<Longrightarrow> B' ! i = A' ! i"
    unfolding B'_def using copy_freqs_spec [of k B1 A'] h1 by simp_all
  have nthB: "B ! i = B' ! i" if "i < k" for i using cB(2) cB'(2) nthA that by simp
  have tkB: "take k B = take k B'"
    using cB(1) cB'(1) h0 h1 k nthB by (intro nth_take_lemma) simp_all
  have "take k L = calculate_minimum_redundancy (take k A) k"
    unfolding L_def by (rule calculator_take [OF lenA(1), symmetric])
  also have "\<dots> = calculate_minimum_redundancy (take k A') k" by (simp only: tk)
  also have "\<dots> = take k L'" unfolding L'_def by (rule calculator_take [OF lenA(2)])
  finally have tkL: "take k L = take k L'" .
  have nthL: "L ! i = L' ! i" if "i < k" for i using take_eq_nth [OF tkL that] .
  have ev: "symbol_lines L B k = symbol_lines L' B' k" "total_bits L B k = total_bits L' B' k"
    by (rule symbol_lines_cong total_bits_cong; rule nthL nthB; assumption)+
  have "main n (Some (A0, B0)) stream =
      (case check_freqs A k 0 0 of None \<Rightarrow> (1, [Diagnostic OrderingViolation])
       | Some totfreq \<Rightarrow> if totfreq \<le> 0 then (1, [Diagnostic ZeroTotal])
           else (0, [Calculator_call (take k A), Report (symbol_lines L B k) (take k B) totfreq (total_bits L B k)]))"
    using cnt rd m by (simp add: main_def Let_def B_def L_def split: option.splits)
  moreover have "main (int k) (Some (A1, B1)) stream =
      (case check_freqs A' k 0 0 of None \<Rightarrow> (1, [Diagnostic OrderingViolation])
       | Some totfreq \<Rightarrow> if totfreq \<le> 0 then (1, [Diagnostic ZeroTotal])
           else (0, [Calculator_call (take k A'), Report (symbol_lines L' B' k) (take k B') totfreq (total_bits L' B' k)]))"
    using cnt rd' m by (simp add: main_def Let_def B'_def L'_def split: option.splits)
  ultimately show ?thesis by (simp only: chk tk tkB ev)
qed

theorem early_end_of_input_witness:
  "main 3 (Some ([7, 7, 7], [9, 9, 9])) [1, 2] = main (int 2) (Some ([5, 5], [6, 6])) [1, 2] \<and>
   main (int 2) (Some ([5, 5], [6, 6])) [1, 2]
     = (0, [Calculator_call [1, 2], Report [(1, 1), (2, 1)] [1, 2] 3 3])"
proof -
  have "main (int 2) (Some ([5, 5], [6, 6])) [1, 2]
     = (0, [Calculator_call [1, 2], Report [(1, 1), (2, 1)] [1, 2] 3 3])" by code_simp
  moreover have "main 3 (Some ([7, 7, 7], [9, 9, 9])) [1, 2] = main (int 2) (Some ([5, 5], [6, 6])) [1, 2]"
    by (rule early_end_of_input) (simp_all add: LIMIT_def)
  ultimately show ?thesis by simp
qed

text \<open>
  C8 as stated also covers \<open>k = 0\<close>. There the two runs differ: a count of 1 with no
  value is truncated to 0 and stops at the test of the total frequency, while a declared
  count of 0 is refused as a count.
\<close>

theorem early_end_of_input_counterexample:
  "main 1 (Some ([0], [0])) [] \<noteq> main (int 0) (Some ([], [])) [] \<and>
   main 1 (Some ([0], [0])) [] = (1, [Diagnostic ZeroTotal]) \<and>
   main (int 0) (Some ([], [])) [] = (1, [Diagnostic InvalidCount])"
  by code_simp

subsection \<open>C9\<close>

text \<open>
  C9. For every non-decreasing sequence of at least two non-negative frequencies every
  returned length is at least 1.
\<close>

theorem lengths_positive:
  "valid_freqs fs \<Longrightarrow> 2 \<le> length fs \<Longrightarrow> i < length fs \<Longrightarrow> 1 \<le> compute_lengths fs ! i"
  unfolding compute_lengths_def by (intro calculator_props(4)) simp_all

theorem lengths_positive_witness:
  "valid_freqs [5, 7] \<and> 1 \<le> compute_lengths [5, 7] ! 1"
  using lengths_positive [of "[5, 7]" 1] by (simp add: valid_freqs_def)

subsection \<open>C10\<close>

text \<open>
  C10, as amended. For every non-decreasing sequence of at least two non-negative
  frequencies whose sum is at most \<open>2^63 - 1\<close> (no sum leaves the range of a cell), the
  first combined weight is \<open>input[0] + input[1]\<close> and every later combined weight is at
  least the one before it.
\<close>

theorem combined_weights_non_decreasing:
  assumes "valid_freqs fs" and "n = length fs" and "2 \<le> n" and "sum_list fs \<le> 2 ^ 63 - 1"
  shows "combined_weight fs n 0 = fs ! 0 + fs ! 1 \<and>
         (\<forall>k. 1 \<le> k \<and> k + 1 < n \<longrightarrow> combined_weight fs n (k - 1) \<le> combined_weight fs n k)"
proof -
  have "pass1_upto fs n (Suc 0) = pass1_init fs" by (simp add: pass1_upto_def)
  moreover have "0 < length fs" using assms(2,3) by auto
  ultimately have "combined_weight fs n 0 = fs ! 0 + fs ! 1"
    unfolding combined_weight_def using q_base(1) [OF assms(1,2,3,4)] by simp
  then show ?thesis using weights_step [OF assms(1,2,3,4)] by simp
qed

theorem combined_weights_non_decreasing_witness:
  "valid_freqs [1, 1, 5, 5] \<and> combined_weight [1, 1, 5, 5] 4 0 = 2 \<and>
   combined_weight [1, 1, 5, 5] 4 0 \<le> combined_weight [1, 1, 5, 5] 4 1"
proof -
  have v: "valid_freqs [1, 1, 5, 5]" by (simp add: valid_freqs_def)
  have "combined_weight [1, 1, 5, 5] 4 0 = [1, 1, 5, 5] ! 0 + [1, 1, 5, 5] ! 1 \<and>
         (\<forall>k. 1 \<le> k \<and> k + 1 < 4 \<longrightarrow>
            combined_weight [1, 1, 5, 5] 4 (k - 1) \<le> combined_weight [1, 1, 5, 5] 4 k)"
    by (rule combined_weights_non_decreasing [OF v]) simp_all
  then have "combined_weight [1, 1, 5, 5] 4 0 = 2"
    and "\<And>k. 1 \<le> k \<Longrightarrow> k + 1 < 4 \<Longrightarrow>
            combined_weight [1, 1, 5, 5] 4 (k - 1) \<le> combined_weight [1, 1, 5, 5] 4 k"
    by simp_all
  from this(1) this(2) [of 1] v show ?thesis by simp
qed

text \<open>
  C10 as stated covers every sequence of cell values. When a sum of two weights passes
  \<open>2^63 - 1\<close> it wraps to a negative value, and the order of the combined weights is
  lost: here \<open>A[0] = 2\<close> and \<open>A[1] = 2 + (2^63 - 1)\<close>, which a 64-bit cell holds as
  \<open>-(2^63 - 1)\<close>. The program accepts this input: its total frequency wraps to
  \<open>2^63 - 1\<close>, which is positive.
\<close>

theorem combined_weights_counterexample:
  "valid_freqs [1, 1, 9223372036854775807, 9223372036854775807, 9223372036854775807] \<and>
   combined_weight [1, 1, 9223372036854775807, 9223372036854775807, 9223372036854775807] 5 0 = 2 \<and>
   combined_weight [1, 1, 9223372036854775807, 9223372036854775807, 9223372036854775807] 5 1
     = - 9223372036854775807 \<and>
   \<not> combined_weight [1, 1, 9223372036854775807, 9223372036854775807, 9223372036854775807] 5 0
     \<le> combined_weight [1, 1, 9223372036854775807, 9223372036854775807, 9223372036854775807] 5 1"
  by code_simp

lemma overflowing_input_is_accepted:
  "fst (main 5 (Some ([0, 0, 0, 0, 0], [0, 0, 0, 0, 0]))
         [1, 1, 9223372036854775807, 9223372036854775807, 9223372036854775807]) = 0"
  by code_simp

end
